theory Spec2Isabelle
  imports Main "HOL-Library.Word"
begin

section \<open>Go library functions used by the proxy\<close>

text \<open>
  A Go \<open>string\<close> and a \<open>[]byte\<close> are both sequences of bytes; both are modelled as
  \<open>string\<close> (a list of 8-bit characters), so the conversions \<open>string(b)\<close> and
  \<open>[]byte(s)\<close> of the source are the identity. The functions of this section are the
  ones the package \<open>proxy\<close> calls from \<open>strings\<close>, \<open>bufio\<close>, \<open>strconv\<close>, \<open>fmt\<close> and
  \<open>net\<close>, written out from the behaviour of the Go standard library.
\<close>

definition CR :: char where
  "CR = CHR 0x0D"

definition LF :: char where
  "LF = CHR 0x0A"

definition CRLF :: string where
  "CRLF = [CR, LF]"

text \<open>\<open>strings.HasPrefix s prefix\<close>.\<close>

fun HasPrefix :: "string \<Rightarrow> string \<Rightarrow> bool" where
  "HasPrefix s [] = True"
| "HasPrefix [] (c # pre) = False"
| "HasPrefix (x # s) (c # pre) = (x = c \<and> HasPrefix s pre)"

text \<open>\<open>strings.Contains s substr\<close>: \<open>substr\<close> occurs somewhere in \<open>s\<close>.\<close>

fun Contains :: "string \<Rightarrow> string \<Rightarrow> bool" where
  "Contains [] sub = (sub = [])"
| "Contains (x # s) sub = (HasPrefix (x # s) sub \<or> Contains s sub)"

text \<open>
  \<open>strings.Replace s old new (-1)\<close>: every non-overlapping occurrence of \<open>old\<close>,
  found from left to right, is replaced by \<open>new\<close>. Every call in the proxy passes a
  non-empty \<open>old\<close>; for an empty \<open>old\<close> Go inserts \<open>new\<close> before every UTF-8 sequence
  and at the end, which is written here per byte (the two agree on ASCII text).
\<close>

function Replace :: "string \<Rightarrow> string \<Rightarrow> string \<Rightarrow> string" where
  "Replace [] old new = (if old = [] then new else [])"
| "Replace (c # s) old new =
     (if old = [] then new @ c # Replace s old new
      else if HasPrefix (c # s) old then new @ Replace (drop (length old) (c # s)) old new
      else c # Replace s old new)"
  by pat_completeness auto
termination
  by (relation "measure (\<lambda>(s, old, new). length s)") auto

text \<open>
  \<open>strings.Split s sep\<close> for a non-empty separator: the pieces of \<open>s\<close> between the
  non-overlapping occurrences of \<open>sep\<close>, always at least one piece. \<open>cur\<close> holds the
  bytes of the piece being read. (For an empty separator Go explodes \<open>s\<close> into UTF-8
  sequences; the proxy only splits at \<open>" "\<close>.)
\<close>

function genSplit :: "string \<Rightarrow> string \<Rightarrow> string \<Rightarrow> string list" where
  "genSplit [] sep cur = [cur]"
| "genSplit (c # s) sep cur =
     (if sep = [] then genSplit s sep (cur @ [c])
      else if HasPrefix (c # s) sep then cur # genSplit (drop (length sep) (c # s)) sep []
      else genSplit s sep (cur @ [c]))"
  by pat_completeness auto
termination
  by (relation "measure (\<lambda>(s, sep, cur). length s)") auto

definition Split :: "string \<Rightarrow> string \<Rightarrow> string list" where
  "Split s sep = (if sep = [] then map (\<lambda>c. [c]) s else genSplit s sep [])"

text \<open>\<open>strings.Join elems sep\<close>.\<close>

fun Join :: "string list \<Rightarrow> string \<Rightarrow> string" where
  "Join [] sep = []"
| "Join [x] sep = x"
| "Join (x # y # ys) sep = x @ sep @ Join (y # ys) sep"

text \<open>
  \<open>strings.ToLower\<close>. On a string of ASCII bytes Go maps the letters \<open>A\<close> to \<open>Z\<close> to
  \<open>a\<close> to \<open>z\<close> and keeps every other byte. On a string with a byte above \<open>0x7F\<close> it
  decodes UTF-8 and maps every rune by \<open>unicode.ToLower\<close>: an ASCII byte as before; the
  Kelvin sign U+212A (bytes \<open>E2 84 AA\<close>) to \<open>k\<close> and the dotted capital I U+0130 (bytes
  \<open>C4 B0\<close>) to \<open>i\<close>, the two runes outside ASCII whose lower case is in ASCII; any
  other rune to a rune outside ASCII, and a byte that is not UTF-8 to U+FFFD. The bytes of
  those last two cases, all above \<open>0x7F\<close>, are kept as they are here: the result holds
  the same ASCII bytes between bytes above \<open>0x7F\<close> as the result in Go, which is what
  the test \<open>strings.Contains\<close> of the hook for an ASCII string depends on.
\<close>

definition lower_byte :: "char \<Rightarrow> char" where
  "lower_byte c =
     (case map_of (zip ''ABCDEFGHIJKLMNOPQRSTUVWXYZ'' ''abcdefghijklmnopqrstuvwxyz'') c of
        Some l \<Rightarrow> l
      | None \<Rightarrow> c)"

function ToLower :: "string \<Rightarrow> string" where
  "ToLower [] = []"
| "ToLower (c # s) =
     (if HasPrefix (c # s) [CHR 0xE2, CHR 0x84, CHR 0xAA] then CHR ''k'' # ToLower (drop 2 s)
      else if HasPrefix (c # s) [CHR 0xC4, CHR 0xB0] then CHR ''i'' # ToLower (drop 1 s)
      else lower_byte c # ToLower s)"
  by pat_completeness auto
termination
  by (relation "measure length") auto

text \<open>\<open>bytes.IndexByte data c\<close>: the position of the first \<open>c\<close>, if there is one.\<close>

fun IndexByte :: "string \<Rightarrow> char \<Rightarrow> nat option" where
  "IndexByte [] c = None"
| "IndexByte (x # s) c =
     (if x = c then Some 0 else map_option Suc (IndexByte s c))"

text \<open>\<open>dropCR\<close> of \<open>bufio\<close>: one trailing carriage return is dropped.\<close>

definition dropCR :: "string \<Rightarrow> string" where
  "dropCR data = (if data \<noteq> [] \<and> last data = CR then butlast data else data)"

text \<open>
  The tokens \<open>bufio.Scanner\<close> yields over a \<open>strings.Reader\<close> with the default split
  function \<open>ScanLines\<close>: each line up to a line feed, without the line feed and without
  one carriage return before it; a last line with no line feed is a token too, and no
  token follows the end of the data. The scanner's buffer holds at most
  \<open>MaxScanTokenSize\<close> bytes: when that many bytes from the start of a line hold no line
  feed, \<open>Scan\<close> returns false (\<open>ErrTooLong\<close>) and the loop over \<open>Scan\<close> ends with the
  lines read so far.
\<close>

definition MaxScanTokenSize :: nat where
  "MaxScanTokenSize = 65536"

function scanLines :: "string \<Rightarrow> string list" where
  "scanLines data =
     (if data = [] then []
      else case IndexByte data LF of
             Some i \<Rightarrow>
               if i < MaxScanTokenSize
               then dropCR (take i data) # scanLines (drop (Suc i) data)
               else []
           | None \<Rightarrow> if length data < MaxScanTokenSize then [dropCR data] else [])"
  by pat_completeness auto
termination
  by (relation "measure length") auto

text \<open>\<open>strconv.FormatUint n 10\<close>, which is what the verb \<open>%d\<close> prints for a \<open>uint64\<close>.\<close>

definition digit_char :: "nat \<Rightarrow> char" where
  "digit_char d = ''0123456789'' ! d"

function FormatUint :: "nat \<Rightarrow> string" where
  "FormatUint n = (if n < 10 then [digit_char n] else FormatUint (n div 10) @ [digit_char (n mod 10)])"
  by pat_completeness auto
termination
  by (relation "measure id") auto

text \<open>
  Errors of the library calls that \<open>SetServerHost\<close> tests; the message is all they
  carry.
\<close>

datatype go_error = AddrError string | NumError string

text \<open>
  \<open>strconv.ParseUint s 10 64\<close>: a non-empty string of decimal digits whose value fits
  64 bits. A sign, a space or an underscore is a syntax error.
\<close>

definition is_digit :: "char \<Rightarrow> bool" where
  "is_digit c = (c \<in> set ''0123456789'')"

definition digit_value :: "char \<Rightarrow> nat" where
  "digit_value c = (case IndexByte ''0123456789'' c of Some d \<Rightarrow> d | None \<Rightarrow> 0)"

definition digits_value :: "string \<Rightarrow> nat" where
  "digits_value s = foldl (\<lambda>n c. 10 * n + digit_value c) 0 s"

definition ParseUint :: "string \<Rightarrow> go_error + 64 word" where
  "ParseUint s =
     (if s = [] \<or> \<not> list_all is_digit s then Inl (NumError ''invalid syntax'')
      else if 2 ^ 64 \<le> digits_value s then Inl (NumError ''value out of range'')
      else Inr (of_nat (digits_value s)))"

text \<open>\<open>bytealg.LastIndexByteString\<close>: the position of the last \<open>c\<close>.\<close>

fun LastIndexByte :: "string \<Rightarrow> char \<Rightarrow> nat option" where
  "LastIndexByte [] c = None"
| "LastIndexByte (x # s) c =
     (case LastIndexByte s c of
        Some i \<Rightarrow> Some (Suc i)
      | None \<Rightarrow> if x = c then Some 0 else None)"

text \<open>
  \<open>net.SplitHostPort\<close>: the port follows the last colon; a host in square brackets
  may hold colons itself.
\<close>

definition SplitHostPort :: "string \<Rightarrow> go_error + (string \<times> string)" where
  "SplitHostPort hostport =
     (case LastIndexByte hostport CHR '':'' of
        None \<Rightarrow> Inl (AddrError ''missing port in address'')
      | Some i \<Rightarrow>
          if hd hostport = CHR ''[''
          then (case IndexByte hostport CHR '']'' of
                  None \<Rightarrow> Inl (AddrError ''missing ] in address'')
                | Some e \<Rightarrow>
                    if Suc e = length hostport then Inl (AddrError ''missing port in address'')
                    else if Suc e = i
                    then (if IndexByte (drop 1 hostport) CHR ''['' \<noteq> None
                          then Inl (AddrError ''unexpected [ in address'')
                          else if IndexByte (drop (Suc e) hostport) CHR '']'' \<noteq> None
                          then Inl (AddrError ''unexpected ] in address'')
                          else Inr (take (e - 1) (drop 1 hostport), drop (Suc i) hostport))
                    else if hostport ! Suc e = CHR '':''
                    then Inl (AddrError ''too many colons in address'')
                    else Inl (AddrError ''missing port in address''))
          else if IndexByte (take i hostport) CHR '':'' \<noteq> None
          then Inl (AddrError ''too many colons in address'')
          else if IndexByte hostport CHR ''['' \<noteq> None
          then Inl (AddrError ''unexpected [ in address'')
          else if IndexByte hostport CHR '']'' \<noteq> None
          then Inl (AddrError ''unexpected ] in address'')
          else Inr (take i hostport, drop (Suc i) hostport))"

section \<open>The proxy session\<close>

text \<open>
  \<open>tcp.Host\<close> and the struct \<open>Proxy\<close> of \<open>pkg/proxy/proxy.go\<close>, the current version of
  the package; \<open>proxy.go\<close> at the root of the repository is an earlier version of it,
  before the proxy kinds and the line-by-line hooks; its two hooks are modelled further
  down, everything else here follows \<open>pkg/proxy/proxy.go\<close>. The
  fields of \<open>tcp.Host\<close> are as the earlier file declares its \<open>Host\<close>. The two streams and
  the two addresses are handles of the operating system: the streams are named by
  \<open>conn\<close> below, the addresses only appear in log lines. \<open>errSig\<close>, a channel of
  capacity 2, is the number of values it holds. What \<open>fmt.Printf\<close> and \<open>fmt.Println\<close>
  print is not part of the model.
\<close>

record Host =
  HostName :: string
  Port :: "64 word"

record Proxy =
  secure :: bool
  connectionInfoPrefix :: string
  proxyKind :: string
  sHost :: Host
  tlsEnabled :: bool
  sniHost :: string
  lPayload :: string
  rPayload :: string
  buffSize :: "64 word"
  lInitialized :: bool
  rInitialized :: bool
  bytesReceived :: "64 word"
  bytesSent :: "64 word"
  erred :: bool
  errSig :: nat
  connId :: "64 word"
  serverProxyMode :: bool
  wsUpgradeInitialized :: bool

definition NewProxy :: "64 word \<Rightarrow> bool \<Rightarrow> Proxy" where
  "NewProxy cid sec =
     \<lparr> secure = sec, connectionInfoPrefix = [], proxyKind = [],
       sHost = \<lparr> HostName = [], Port = 0 \<rparr>, tlsEnabled = False, sniHost = [],
       lPayload = [], rPayload = [], buffSize = 0xffff,
       lInitialized = False, rInitialized = False,
       bytesReceived = 0, bytesSent = 0, erred = False, errSig = 0,
       connId = cid, serverProxyMode = False, wsUpgradeInitialized = False \<rparr>"

definition SetlPayload :: "Proxy \<Rightarrow> string \<Rightarrow> Proxy" where
  "SetlPayload p tmpl =
     (let l1 = (if HostName (sHost p) \<noteq> []
                then Replace (Replace tmpl ''[host]'' (HostName (sHost p))) ''[host_port]''
                       (HostName (sHost p) @ '':'' @ FormatUint (unat (Port (sHost p))))
                else tmpl);
          l2 = (if sniHost p \<noteq> [] then Replace l1 ''[sni]'' (sniHost p) else l1);
          l3 = Replace l2 ''[crlf]'' CRLF
      in p\<lparr>lPayload := l3\<rparr>)"

definition SetrPayload :: "Proxy \<Rightarrow> string \<Rightarrow> Proxy" where
  "SetrPayload p tmpl =
     (let r1 = (if tmpl = [] then ''HTTP/1.1 200 Connection Established[crlf][crlf]'' else tmpl);
          r2 = Replace r1 ''[crlf]'' CRLF
      in p\<lparr>rPayload := r2\<rparr>)"

definition SetServerProxyMode :: "Proxy \<Rightarrow> bool \<Rightarrow> Proxy" where
  "SetServerProxyMode p enabled = p\<lparr>serverProxyMode := enabled\<rparr>"

definition SetServerHost :: "Proxy \<Rightarrow> string \<Rightarrow> Proxy" where
  "SetServerHost p server =
     (case SplitHostPort server of
        Inl e \<Rightarrow> p
      | Inr (h, sPort) \<Rightarrow>
          (case ParseUint sPort of
             Inl e \<Rightarrow> p
           | Inr sPortParsed \<Rightarrow> p\<lparr>sHost := \<lparr> HostName = h, Port = sPortParsed \<rparr>\<rparr>))"

definition SetBufferSize :: "Proxy \<Rightarrow> 64 word \<Rightarrow> Proxy" where
  "SetBufferSize p n = p\<lparr>buffSize := n\<rparr>"

definition SetEnableTLS :: "Proxy \<Rightarrow> bool \<Rightarrow> Proxy" where
  "SetEnableTLS p enabled = p\<lparr>tlsEnabled := enabled\<rparr>"

definition SetSNIHost :: "Proxy \<Rightarrow> string \<Rightarrow> Proxy" where
  "SetSNIHost p hostname = p\<lparr>sniHost := hostname\<rparr>"

definition SetProxyKind :: "Proxy \<Rightarrow> string \<Rightarrow> Proxy" where
  "SetProxyKind p kind =
     p\<lparr>proxyKind := kind,
       connectionInfoPrefix :=
         (if secure p then ''CONN '' @ kind @ '' (TLS) #'' @ FormatUint (unat (connId p))
          else ''CONN '' @ kind @ '' #'' @ FormatUint (unat (connId p)))\<rparr>"

subsection \<open>The rewrite hooks\<close>

text \<open>
  Indexing a slice out of range panics in Go, and a panic in a forwarding goroutine is
  not recovered anywhere in the program. A hook returns \<open>Inl\<close> of the panic or \<open>Inr\<close>
  of the session and the buffer \<open>*connBuff\<close> as the hook leaves them.
\<close>

datatype panic = IndexOutOfRange

definition wsResponse :: string where
  "wsResponse = ''HTTP/1.1 101 Switching Protocols'' @ CRLF @ ''Upgrade: websocket'' @ CRLF
                @ ''Connection: Upgrade'' @ CRLF @ CRLF"

text \<open>The flag \<open>doUpgrade\<close> as the scanning loop of \<open>handleOutboundData\<close> leaves it.\<close>

definition doUpgrade :: "string list \<Rightarrow> bool" where
  "doUpgrade respArr = list_ex (\<lambda>l. Contains (ToLower l) ''upgrade: websocket'') respArr"

definition handleOutboundData :: "Proxy \<Rightarrow> string \<Rightarrow> panic + (Proxy \<times> string)" where
  "handleOutboundData p connBuff =
     (if lInitialized p then Inr (p, connBuff)
      else
        let respArr = scanLines connBuff in
        if serverProxyMode p then
          (if doUpgrade respArr
           then Inr (p\<lparr>wsUpgradeInitialized := True, lInitialized := True\<rparr>, wsResponse)
           else Inr (p\<lparr>lInitialized := True\<rparr>, connBuff))
        else
          (case (if proxyKind p = ''ssh''
                 then (case respArr of
                         [] \<Rightarrow> Inl IndexOutOfRange
                       | l # ls \<Rightarrow> Inr (if Contains l ''CONNECT '' then lPayload p else connBuff))
                 else Inr connBuff) of
             Inl e \<Rightarrow> Inl e
           | Inr buff1 \<Rightarrow>
               (case (if proxyKind p = ''trojan''
                      then (case respArr of
                              [] \<Rightarrow> Inl IndexOutOfRange
                            | l # ls \<Rightarrow>
                                (case Split l '' '' of
                                   f0 # reqPath # fs \<Rightarrow>
                                     Inr (Replace buff1 ('' '' @ reqPath @ '' '')
                                            ('' wss://'' @ sniHost p @ reqPath @ '' ''))
                                 | _ \<Rightarrow> Inl IndexOutOfRange))
                      else Inr buff1) of
                  Inl e \<Rightarrow> Inl e
                | Inr buff2 \<Rightarrow> Inr (p\<lparr>lInitialized := True\<rparr>, buff2))))"

definition handleInboundData :: "Proxy \<Rightarrow> string \<Rightarrow> panic + (Proxy \<times> string)" where
  "handleInboundData p connBuff =
     (if rInitialized p then Inr (p, connBuff)
      else
        (case scanLines connBuff of
           [] \<Rightarrow> Inl IndexOutOfRange
         | l # ls \<Rightarrow>
             let respArr = (if Contains l '' 101 '' \<and> proxyKind p = ''ssh''
                            then Replace (rPayload p) CRLF [] # ls
                            else l # ls)
             in Inr (p\<lparr>rInitialized := True\<rparr>,
                     if \<not> serverProxyMode p then Join respArr CRLF @ CRLF else connBuff)))"

subsection \<open>The hooks of the earlier file\<close>

text \<open>
  \<open>handleOutboundData\<close> and \<open>handleInboundData\<close> of \<open>proxy.go\<close> at the root of the
  repository. Its struct \<open>Proxy\<close> has the fields of the current one without \<open>secure\<close>,
  \<open>connectionInfoPrefix\<close> and \<open>proxyKind\<close>, which these hooks do not read, so the same
  record stands for it. These hooks test the whole buffer and index nothing: they do not
  panic. \<open>bytes.Contains\<close> on the buffer is \<open>strings.Contains\<close> on its bytes.
\<close>

definition handleOutboundData_root :: "Proxy \<Rightarrow> string \<Rightarrow> Proxy \<times> string" where
  "handleOutboundData_root p connBuff =
     (if lInitialized p then (p, connBuff)
      else if serverProxyMode p then
        (if Contains (ToLower connBuff) ''upgrade: websocket''
         then (p\<lparr>wsUpgradeInitialized := True, lInitialized := True\<rparr>,
               ''HTTP/1.1 101 Switching Protocols'' @ CRLF @ CRLF)
         else (p\<lparr>lInitialized := True\<rparr>, connBuff))
      else
        (if Contains connBuff ''CONNECT ''
         then (p\<lparr>lInitialized := True\<rparr>, lPayload p)
         else (p\<lparr>lInitialized := True\<rparr>, connBuff)))"

definition handleInboundData_root :: "Proxy \<Rightarrow> string \<Rightarrow> Proxy \<times> string" where
  "handleInboundData_root p connBuff =
     (if rInitialized p then (p, connBuff)
      else if Contains connBuff ''HTTP/1.'' \<and> \<not> serverProxyMode p
      then (p\<lparr>rInitialized := True\<rparr>, rPayload p)
      else (p\<lparr>rInitialized := True\<rparr>, connBuff))"

subsection \<open>The forwarding task\<close>

text \<open>
  The two streams of a session: \<open>LConn\<close> is \<open>p.lConn\<close>, the accepted connection, and
  \<open>RConn\<close> is \<open>p.rConn\<close>, the dialled one. What a task does to the outside is a list of
  events: a call of \<open>Write\<close> on a stream with the bytes passed and whether the call
  succeeded, and the start of a further task by the \<open>go\<close> statement.
\<close>

datatype conn = LConn | RConn

datatype event = Write conn string bool | Spawn conn conn

text \<open>
  \<open>err\<close>, run without interruption. The send on \<open>errSig\<close> waits while the channel holds
  its two values; \<open>None\<close> is a send that waits for ever.
\<close>

definition err :: "Proxy \<Rightarrow> Proxy option" where
  "err p =
     (if erred p then Some p
      else if errSig p < 2 then Some (p\<lparr>errSig := Suc (errSig p), erred := True\<rparr>)
      else None)"

text \<open>
  One pass through the body of the loop of \<open>handleForwardData\<close>, up to the point where
  it goes round again (\<open>Continue\<close>), calls \<open>p.err()\<close> and returns (\<open>Failed\<close>), or
  panics. The environment decides what \<open>src.Read\<close> returns, \<open>None\<close> for an error and
  the bytes read otherwise, and whether the call of \<open>Write\<close> succeeds; a call that
  succeeds has written the whole buffer.
\<close>

datatype outcome = Continue | Failed | Panic panic

definition forwardBody ::
  "Proxy \<Rightarrow> conn \<Rightarrow> conn \<Rightarrow> string option \<Rightarrow> bool \<Rightarrow> Proxy \<times> event list \<times> outcome" where
  "forwardBody p src dst rd wok =
     (case rd of
        None \<Rightarrow> (p, [], Failed)
      | Some buffer \<Rightarrow>
          (case (if src = LConn then handleOutboundData p buffer
                 else handleInboundData p buffer) of
             Inl e \<Rightarrow> (p, [], Panic e)
           | Inr (p1, connBuff) \<Rightarrow>
               (let (p2, evs) =
                      (if serverProxyMode p1 \<and> wsUpgradeInitialized p1
                       then (p1\<lparr>wsUpgradeInitialized := False\<rparr>,
                             [Write src connBuff wok, Spawn dst src])
                       else (p1, [Write dst connBuff wok]))
                in if \<not> wok then (p2, evs, Failed)
                   else if src = LConn
                   then (p2\<lparr>bytesSent := bytesSent p2 + of_nat (length connBuff)\<rparr>,
                         evs, Continue)
                   else (p2\<lparr>bytesReceived := bytesReceived p2 + of_nat (length connBuff)\<rparr>,
                         evs, Continue))))"

text \<open>
  A task run on its own against a script of the environment: for each pass, what
  \<open>Read\<close> returns and whether \<open>Write\<close> succeeds. At the end of the script the task is
  still in its loop, waiting in \<open>Read\<close>.
\<close>

datatype status = Running | Returned | Panicked panic | Blocked

fun handleForwardData ::
  "Proxy \<Rightarrow> conn \<Rightarrow> conn \<Rightarrow> (string option \<times> bool) list \<Rightarrow> Proxy \<times> event list \<times> status" where
  "handleForwardData p src dst [] = (p, [], Running)"
| "handleForwardData p src dst ((rd, wok) # io) =
     (case forwardBody p src dst rd wok of
        (p1, evs, Continue) \<Rightarrow>
          (case handleForwardData p1 src dst io of
             (p2, evs2, st) \<Rightarrow> (p2, evs @ evs2, st))
      | (p1, evs, Failed) \<Rightarrow>
          (case err p1 of
             Some p2 \<Rightarrow> (p2, evs, Returned)
           | None \<Rightarrow> (p1, evs, Blocked))
      | (p1, evs, Panic e) \<Rightarrow> (p1, evs, Panicked e))"

subsection \<open>A session with its tasks running together\<close>

text \<open>
  \<open>Start\<close> and the forwarding tasks run as goroutines on the one \<open>Proxy\<close>. A state of
  the session holds the shared \<open>Proxy\<close>, where \<open>Start\<close> stands, the tasks started so
  far with the place each one stands at, and four counts that the source does not keep:
  the calls of \<open>tcp.CloseConnection\<close> on each stream, the values \<open>Start\<close> has received
  from \<open>errSig\<close> and the values sent on it.

  \<open>Start\<close> is at the dial, at the receive \<open><-p.errSig\<close>, or has returned. A task is in
  its loop, or inside \<open>err\<close> before one of its three statements (the test of
  \<open>p.erred\<close>, the send, the assignment), or has returned.
\<close>

datatype start_pc = AtDial | AtWait | AtEnd

datatype pc = AtLoop | AtErrTest | AtErrSend | AtErrSet | Exited

record session =
  shared :: Proxy
  startPc :: start_pc
  tasks :: "(conn \<times> conn \<times> pc) list"
  crashed :: bool
  closedL :: nat
  closedR :: nat
  observed :: nat
  asserted :: nat

definition session0 :: "Proxy \<Rightarrow> session" where
  "session0 p =
     \<lparr> shared = p, startPc = AtDial, tasks = [], crashed = False,
       closedL = 0, closedR = 0, observed = 0, asserted = 0 \<rparr>"

text \<open>
  The steps. A pass of a task through the body of its loop is one step: what a pass
  reads and writes of the \<open>Proxy\<close> (a latch, the upgrade flag, a byte count) is touched
  by no other task at that time, the reverse task of server mode being started only after
  the flag is cleared. \<open>err\<close> is called by every task and is not protected by a lock, so
  each of its statements is a step of its own. The environment chooses which step is
  taken, whether the dial succeeds, what a \<open>Read\<close> returns and whether a \<open>Write\<close>
  succeeds.

  \<open>Dial ok\<close> is \<open>Start\<close> up to the receive: on a failed dial it returns, and the deferred
  close of the local stream runs; otherwise both \<open>go\<close> statements have run (a task that
  has not moved yet is a task at the top of its loop). \<open>Observe\<close> is the receive, enabled
  when the channel holds a value, followed by the return of \<open>Start\<close> with its two
  deferred closes. A panic in a task ends the whole process: no step follows it.
\<close>

datatype action =
    Dial bool
  | Observe
  | Pass nat "string option" bool
  | Test nat
  | Send nat
  | Assign nat

fun spawned :: "event list \<Rightarrow> (conn \<times> conn \<times> pc) list" where
  "spawned [] = []"
| "spawned (Spawn a b # evs) = (a, b, AtLoop) # spawned evs"
| "spawned (Write c buf ok # evs) = spawned evs"

definition taskAt :: "session \<Rightarrow> nat \<Rightarrow> pc \<Rightarrow> bool" where
  "taskAt s i l = (i < length (tasks s) \<and> snd (snd (tasks s ! i)) = l)"

definition moveTask :: "session \<Rightarrow> nat \<Rightarrow> pc \<Rightarrow> (conn \<times> conn \<times> pc) list" where
  "moveTask s i l = (tasks s)[i := (fst (tasks s ! i), fst (snd (tasks s ! i)), l)]"

fun exec :: "action \<Rightarrow> session \<Rightarrow> session option" where
  "exec (Dial ok) s =
     (if crashed s \<or> startPc s \<noteq> AtDial then None
      else if ok
      then Some (s\<lparr>startPc := AtWait,
                   tasks := (LConn, RConn, AtLoop)
                            # (if serverProxyMode (shared s) then []
                               else [(RConn, LConn, AtLoop)])\<rparr>)
      else Some (s\<lparr>startPc := AtEnd, closedL := Suc (closedL s)\<rparr>))"
| "exec Observe s =
     (if crashed s \<or> startPc s \<noteq> AtWait \<or> errSig (shared s) = 0 then None
      else Some (s\<lparr>shared := (shared s)\<lparr>errSig := errSig (shared s) - 1\<rparr>,
                   observed := Suc (observed s), startPc := AtEnd,
                   closedR := Suc (closedR s), closedL := Suc (closedL s)\<rparr>))"
| "exec (Pass i rd wok) s =
     (if crashed s \<or> \<not> taskAt s i AtLoop then None
      else case forwardBody (shared s) (fst (tasks s ! i)) (fst (snd (tasks s ! i))) rd wok of
             (p1, evs, Continue) \<Rightarrow> Some (s\<lparr>shared := p1, tasks := tasks s @ spawned evs\<rparr>)
           | (p1, evs, Failed) \<Rightarrow>
               Some (s\<lparr>shared := p1, tasks := moveTask s i AtErrTest @ spawned evs\<rparr>)
           | (p1, evs, Panic e) \<Rightarrow> Some (s\<lparr>crashed := True\<rparr>))"
| "exec (Test i) s =
     (if crashed s \<or> \<not> taskAt s i AtErrTest then None
      else Some (s\<lparr>tasks := moveTask s i (if erred (shared s) then Exited else AtErrSend)\<rparr>))"
| "exec (Send i) s =
     (if crashed s \<or> \<not> taskAt s i AtErrSend \<or> \<not> errSig (shared s) < 2 then None
      else Some (s\<lparr>shared := (shared s)\<lparr>errSig := Suc (errSig (shared s))\<rparr>,
                   asserted := Suc (asserted s), tasks := moveTask s i AtErrSet\<rparr>))"
| "exec (Assign i) s =
     (if crashed s \<or> \<not> taskAt s i AtErrSet then None
      else Some (s\<lparr>shared := (shared s)\<lparr>erred := True\<rparr>, tasks := moveTask s i Exited\<rparr>))"

text \<open>A schedule is a list of steps; \<open>None\<close> when one of them is not enabled.\<close>

fun run :: "session \<Rightarrow> action list \<Rightarrow> session option" where
  "run s [] = Some s"
| "run s (a # as) = (case exec a s of None \<Rightarrow> None | Some s1 \<Rightarrow> run s1 as)"

text \<open>
  A session as the accept loop hands it to \<open>Start\<close>: built by \<open>NewProxy\<close> and the
  setters, which leave the channel empty and the flags of the running session unset.
\<close>

definition unstarted :: "Proxy \<Rightarrow> bool" where
  "unstarted p \<longleftrightarrow>
     errSig p = 0 \<and> \<not> erred p \<and> \<not> wsUpgradeInitialized p \<and> \<not> lInitialized p \<and> \<not> rInitialized p"

text \<open>The number of tasks that are past the send of \<open>err\<close>.\<close>

definition pastSend :: "conn \<times> conn \<times> pc \<Rightarrow> bool" where
  "pastSend t = (snd (snd t) = AtErrSet \<or> snd (snd t) = Exited)"

definition failedTask :: "conn \<times> conn \<times> pc \<Rightarrow> bool" where
  "failedTask t = (snd (snd t) \<noteq> AtLoop)"

subsection \<open>Tokens that cannot overlap\<close>

text \<open>
  Two strings are apart when no occurrence of one can overlap an occurrence of the other:
  neither starts with the other, and the first byte of each does not occur further
  inside the other. The placeholders of the payload templates are pairwise apart.
\<close>

definition apart :: "string \<Rightarrow> string \<Rightarrow> bool" where
  "apart tok old \<longleftrightarrow>
     old \<noteq> [] \<and> tok \<noteq> [] \<and> hd tok \<notin> set (tl old) \<and> hd old \<notin> set (tl tok)
     \<and> \<not> HasPrefix old tok \<and> \<not> HasPrefix tok old"

subsection \<open>Invariants of a running session\<close>

text \<open>
  Three properties that every step keeps. The first ties the counts to the place where
  \<open>Start\<close> stands. The second bounds the number of tasks: the upgrade flag is never set
  between two steps, and in server mode the second task exists only once the outbound
  latch is set. The third bounds the sends by the tasks that are past the send.
\<close>

definition inv_start :: "session \<Rightarrow> bool" where
  "inv_start s \<longleftrightarrow>
     errSig (shared s) + observed s = asserted s
     \<and> (case startPc s of
          AtDial \<Rightarrow> tasks s = [] \<and> observed s = 0 \<and> closedL s = 0 \<and> closedR s = 0
                    \<and> asserted s = 0
        | AtWait \<Rightarrow> tasks s \<noteq> [] \<and> observed s = 0 \<and> closedL s = 0 \<and> closedR s = 0
        | AtEnd \<Rightarrow> closedL s = 1 \<and> closedR s = observed s
                   \<and> (if tasks s = [] then observed s = 0 \<and> asserted s = 0
                       else observed s = 1))"

definition inv_tasks :: "session \<Rightarrow> bool" where
  "inv_tasks s \<longleftrightarrow>
     \<not> (serverProxyMode (shared s) \<and> wsUpgradeInitialized (shared s))
     \<and> length (tasks s)
        \<le> (if serverProxyMode (shared s) \<and> \<not> lInitialized (shared s) then 1 else 2)"

definition inv_sig :: "session \<Rightarrow> bool" where
  "inv_sig s \<longleftrightarrow>
     asserted s \<le> length (filter pastSend (tasks s))
     \<and> (erred (shared s) \<or> list_ex pastSend (tasks s) \<longrightarrow> 1 \<le> asserted s)"

definition invs :: "session \<Rightarrow> bool" where
  "invs s \<longleftrightarrow> inv_start s \<and> inv_tasks s \<and> inv_sig s"

section \<open>Unfolding sets\<close>

lemmas lib_defs = CRLF_def CR_def LF_def dropCR_def MaxScanTokenSize_def lower_byte_def
  Split_def digit_char_def SplitHostPort_def ParseUint_def is_digit_def digits_value_def
  digit_value_def

lemmas setter_defs = NewProxy_def SetlPayload_def SetrPayload_def SetServerProxyMode_def
  SetServerHost_def SetBufferSize_def SetEnableTLS_def SetSNIHost_def SetProxyKind_def

lemmas hook_defs = handleOutboundData_def handleInboundData_def doUpgrade_def wsResponse_def

lemmas forward_defs = forwardBody_def err_def

lemmas session_defs = session0_def taskAt_def moveTask_def

lemmas root_defs = handleOutboundData_root_def handleInboundData_root_def

section \<open>Facts about the library functions\<close>

lemma HasPrefix_iff: "HasPrefix s pre \<longleftrightarrow> (\<exists>r. s = pre @ r)"
  by (induction s pre rule: HasPrefix.induct) auto

lemma HasPrefix_append: "HasPrefix (pre @ r) pre"
  by (simp add: HasPrefix_iff)

lemma HasPrefix_drop: "HasPrefix s pre \<Longrightarrow> s = pre @ drop (length pre) s"
  by (auto simp: HasPrefix_iff)

lemma Contains_iff: "Contains s sub \<longleftrightarrow> (\<exists>a b. s = a @ sub @ b)"
proof (induction s)
  case Nil
  then show ?case by auto
next
  case (Cons x s)
  show ?case
  proof
    assume "Contains (x # s) sub"
    then consider "HasPrefix (x # s) sub" | "Contains s sub" by auto
    then show "\<exists>a b. x # s = a @ sub @ b"
    proof cases
      case 1
      then obtain r where "x # s = sub @ r" by (auto simp: HasPrefix_iff)
      then have "x # s = [] @ sub @ r" by simp
      then show ?thesis by blast
    next
      case 2
      then obtain a b where "s = a @ sub @ b" using Cons.IH by auto
      then have "x # s = (x # a) @ sub @ b" by simp
      then show ?thesis by blast
    qed
  next
    assume "\<exists>a b. x # s = a @ sub @ b"
    then obtain a b where ab: "x # s = a @ sub @ b" by auto
    show "Contains (x # s) sub"
    proof (cases a)
      case Nil
      then have "HasPrefix (x # s) sub" using ab by (auto simp: HasPrefix_iff)
      then show ?thesis by simp
    next
      case (Cons y a')
      then have "s = a' @ sub @ b" using ab by simp
      then have "Contains s sub" using Cons.IH by blast
      then show ?thesis by simp
    qed
  qed
qed

lemma Contains_append_left: "Contains s sub \<Longrightarrow> Contains (u @ s) sub"
  by (induction u) auto

lemma Replace_absent:
  "old \<noteq> [] \<Longrightarrow> \<not> Contains s old \<Longrightarrow> Replace s old new = s"
  by (induction s old new rule: Replace.induct) auto

lemma Replace_skip:
  "old \<noteq> [] \<Longrightarrow> hd old \<notin> set u \<Longrightarrow> Replace (u @ r) old new = u @ Replace r old new"
proof (induction u)
  case Nil
  then show ?case by simp
next
  case (Cons c u)
  then have "\<not> HasPrefix (c # u @ r) old" by (cases old) auto
  with Cons show ?case by simp
qed

lemma Replace_at_occurrence:
  "old \<noteq> [] \<Longrightarrow> Replace (old @ b) old new = new @ Replace b old new"
  by (cases old) (auto simp: HasPrefix_append)

lemma HasPrefix_of_append:
  "xs @ ys = pre @ r \<Longrightarrow> length pre \<le> length xs \<Longrightarrow> HasPrefix xs pre"
proof -
  assume e: "xs @ ys = pre @ r" and l: "length pre \<le> length xs"
  have "take (length pre) (xs @ ys) = pre" using e by simp
  then have "take (length pre) xs = pre" using l by simp
  then have "xs = pre @ drop (length pre) xs" by (metis append_take_drop_id)
  then show ?thesis unfolding HasPrefix_iff by blast
qed

lemma Replace_first:
  "old \<noteq> [] \<Longrightarrow> \<not> Contains (a @ butlast old) old
     \<Longrightarrow> Replace (a @ old @ b) old new = a @ new @ Replace b old new"
proof (induction a)
  case Nil
  then show ?case by (simp add: Replace_at_occurrence)
next
  case (Cons c a)
  have np: "\<not> HasPrefix (c # a @ old @ b) old"
  proof
    assume "HasPrefix (c # a @ old @ b) old"
    then obtain r where r: "c # a @ old @ b = old @ r" by (auto simp: HasPrefix_iff)
    have len: "length old \<le> length (c # a @ butlast old)" using Cons.prems(1) by (cases old) auto
    have "butlast old @ [last old] = old" using Cons.prems(1) by simp
    then have e: "old @ b = butlast old @ last old # b"
      by (metis append_Cons append_Nil append_assoc)
    have "(c # a @ butlast old) @ (last old # b) = c # a @ old @ b" by (simp add: e)
    also have "\<dots> = old @ r" by (rule r)
    finally have "HasPrefix (c # a @ butlast old) old"
      using len by (rule HasPrefix_of_append)
    then show False using Cons.prems(2) by simp
  qed
  have "\<not> Contains (a @ butlast old) old" using Cons.prems(2) by simp
  then show ?case using Cons np by simp
qed

lemma Contains_skip:
  "tok \<noteq> [] \<Longrightarrow> hd tok \<notin> set u \<Longrightarrow> Contains (u @ r) tok \<Longrightarrow> Contains r tok"
proof (induction u)
  case Nil
  then show ?case by simp
next
  case (Cons c u)
  then have "\<not> HasPrefix (c # u @ r) tok" by (cases tok) auto
  with Cons show ?case by simp
qed

lemma HasPrefix_common:
  "HasPrefix (xs @ r) ys \<Longrightarrow> HasPrefix xs ys \<or> HasPrefix ys xs"
proof -
  assume "HasPrefix (xs @ r) ys"
  then obtain q where "xs @ r = ys @ q" by (auto simp: HasPrefix_iff)
  then show ?thesis
    by (auto simp: HasPrefix_iff append_eq_append_conv2)
qed

lemma Contains_past_occurrence:
  assumes "apart tok old" and "Contains (old @ r) tok"
  shows "Contains r tok"
proof -
  obtain x os where old: "old = x # os" using assms(1) by (cases old) (auto simp: apart_def)
  have tok: "tok \<noteq> []" and nin: "hd tok \<notin> set os"
    using assms(1) old by (auto simp: apart_def)
  have "\<not> HasPrefix (old @ r) tok"
    using HasPrefix_common [of old r tok] assms(1) by (auto simp: apart_def)
  then have "Contains (os @ r) tok" using assms(2) old by simp
  then show ?thesis using Contains_skip [OF tok nin] by blast
qed

lemma Contains_Replace_apart:
  "apart tok old \<Longrightarrow> Contains s tok \<Longrightarrow> Contains (Replace s old new) tok"
proof (induction s old new rule: Replace.induct)
  case (1 old new)
  then show ?case by (simp add: apart_def)
next
  case (2 c s old new)
  have old: "old \<noteq> []" using "2.prems"(1) by (simp add: apart_def)
  show ?case
  proof (cases "HasPrefix (c # s) old")
    case True
    then obtain r where r: "c # s = old @ r" by (auto simp: HasPrefix_iff)
    then have dr: "drop (length old) (c # s) = r" by (metis append_eq_conv_conj)
    have "Contains r tok"
      using Contains_past_occurrence [OF "2.prems"(1)] "2.prems"(2) r by simp
    then have "Contains (Replace r old new) tok"
      using "2.IH"(2) [OF old True "2.prems"(1)] dr by simp
    then have "Contains (new @ Replace r old new) tok" by (rule Contains_append_left)
    then show ?thesis using old True dr by simp
  next
    case False
    have rep: "Replace (c # s) old new = c # Replace s old new" using old False by simp
    show ?thesis
    proof (cases "HasPrefix (c # s) tok")
      case True
      then obtain q where q: "c # s = tok @ q" by (auto simp: HasPrefix_iff)
      obtain ts where tok: "tok = c # ts" using q "2.prems"(1) by (cases tok) (auto simp: apart_def)
      have s: "s = ts @ q" using q tok by simp
      have "hd old \<notin> set ts" using "2.prems"(1) tok by (simp add: apart_def)
      then have "Replace s old new = ts @ Replace q old new"
        using s old by (simp add: Replace_skip)
      then have "HasPrefix (c # Replace s old new) tok"
        using tok by (simp add: HasPrefix_iff)
      then show ?thesis using rep by simp
    next
      case nt: False
      then have "Contains s tok" using "2.prems"(2) by simp
      then have "Contains (Replace s old new) tok"
        using "2.IH"(3) [OF old False "2.prems"(1)] by simp
      then show ?thesis using rep by simp
    qed
  qed
qed

lemma IndexByte_less: "IndexByte s c = Some i \<Longrightarrow> i < length s"
  by (induction s arbitrary: i) (auto split: if_splits)

lemma scanLines_Nil_iff:
  "scanLines buf = [] \<longleftrightarrow>
     buf = [] \<or> (case IndexByte buf LF of
                   Some i \<Rightarrow> MaxScanTokenSize \<le> i
                 | None \<Rightarrow> MaxScanTokenSize \<le> length buf)"
  by (subst scanLines.simps) (auto split: option.splits)

lemma scanLines_short_nonempty:
  "buf \<noteq> [] \<Longrightarrow> length buf < MaxScanTokenSize \<Longrightarrow> scanLines buf \<noteq> []"
  using IndexByte_less [of buf LF]
  by (auto simp: scanLines_Nil_iff split: option.splits)

section \<open>Facts about the payload setters\<close>

lemma apart_placeholders:
  "apart ''[host]'' ''[sni]''" "apart ''[host]'' ''[crlf]''"
  "apart ''[host_port]'' ''[sni]''" "apart ''[host_port]'' ''[crlf]''"
  "apart ''[sni]'' ''[host]''" "apart ''[sni]'' ''[host_port]''" "apart ''[sni]'' ''[crlf]''"
  by (simp_all add: apart_def)

lemma lPayload_SetlPayload:
  "lPayload (SetlPayload p tmpl) =
     (let hosted = (if HostName (sHost p) = [] then tmpl
                    else Replace (Replace tmpl ''[host]'' (HostName (sHost p))) ''[host_port]''
                           (HostName (sHost p) @ '':'' @ FormatUint (unat (Port (sHost p)))));
          named = (if sniHost p = [] then hosted else Replace hosted ''[sni]'' (sniHost p))
      in Replace named ''[crlf]'' [CHR 0x0D, CHR 0x0A])"
  by (simp add: SetlPayload_def Let_def CRLF_def CR_def LF_def)

lemma host_tokens_stay:
  assumes "HostName (sHost p) = []" and "tok = ''[host]'' \<or> tok = ''[host_port]''"
    and "Contains tmpl tok"
  shows "Contains (lPayload (SetlPayload p tmpl)) tok"
proof -
  have a1: "apart tok ''[sni]''" and a2: "apart tok ''[crlf]''"
    using assms(2) apart_placeholders by auto
  let ?named = "if sniHost p = [] then tmpl else Replace tmpl ''[sni]'' (sniHost p)"
  have "Contains ?named tok"
    using assms(3) Contains_Replace_apart [OF a1] by simp
  then have "Contains (Replace ?named ''[crlf]'' CRLF) tok"
    by (rule Contains_Replace_apart [OF a2])
  moreover have "lPayload (SetlPayload p tmpl) = Replace ?named ''[crlf]'' CRLF"
    using assms(1) by (simp add: SetlPayload_def Let_def)
  ultimately show ?thesis by simp
qed

lemma sni_token_stays:
  assumes "sniHost p = []" and "Contains tmpl ''[sni]''"
  shows "Contains (lPayload (SetlPayload p tmpl)) ''[sni]''"
proof -
  let ?hosted = "if HostName (sHost p) = [] then tmpl
                 else Replace (Replace tmpl ''[host]'' (HostName (sHost p))) ''[host_port]''
                        (HostName (sHost p) @ '':'' @ FormatUint (unat (Port (sHost p))))"
  have "Contains (Replace tmpl ''[host]'' h) ''[sni]''" for h
    using assms(2) by (rule Contains_Replace_apart [OF apart_placeholders(5)])
  then have "Contains (Replace (Replace tmpl ''[host]'' h) ''[host_port]'' hp) ''[sni]''" for h hp
    by (rule Contains_Replace_apart [OF apart_placeholders(6)])
  then have "Contains ?hosted ''[sni]''"
    using assms(2) by simp
  then have "Contains (Replace ?hosted ''[crlf]'' CRLF) ''[sni]''"
    by (rule Contains_Replace_apart [OF apart_placeholders(7)])
  moreover have "lPayload (SetlPayload p tmpl) = Replace ?hosted ''[crlf]'' CRLF"
    using assms(1) by (simp add: SetlPayload_def Let_def)
  ultimately show ?thesis by simp
qed

section \<open>Facts about the hooks and the forwarding loop\<close>

lemma handleOutboundData_fields:
  assumes "handleOutboundData p b = Inr (p1, b1)"
  shows "serverProxyMode p1 = serverProxyMode p" and "lPayload p1 = lPayload p"
    and "rPayload p1 = rPayload p" and "rInitialized p1 = rInitialized p"
    and "erred p1 = erred p" and "errSig p1 = errSig p" and "lInitialized p1"
    and "proxyKind p1 = proxyKind p" and "sniHost p1 = sniHost p"
  using assms
  by (auto simp: handleOutboundData_def Let_def split: if_splits list.splits sum.splits)

lemma handleInboundData_fields:
  assumes "handleInboundData p b = Inr (p1, b1)"
  shows "serverProxyMode p1 = serverProxyMode p" and "lPayload p1 = lPayload p"
    and "rPayload p1 = rPayload p" and "lInitialized p1 = lInitialized p"
    and "erred p1 = erred p" and "errSig p1 = errSig p" and "rInitialized p1"
    and "wsUpgradeInitialized p1 = wsUpgradeInitialized p"
    and "proxyKind p1 = proxyKind p" and "sniHost p1 = sniHost p"
  using assms
  by (auto simp: handleInboundData_def Let_def split: if_splits list.splits)

lemma handleOutboundData_latched: "lInitialized p \<Longrightarrow> handleOutboundData p b = Inr (p, b)"
  by (simp add: handleOutboundData_def)

lemma handleInboundData_latched: "rInitialized p \<Longrightarrow> handleInboundData p b = Inr (p, b)"
  by (simp add: handleInboundData_def)

lemma handleOutboundData_flag:
  assumes "handleOutboundData p b = Inr (p1, b1)" and "\<not> serverProxyMode p"
  shows "wsUpgradeInitialized p1 = wsUpgradeInitialized p"
  using assms
  by (auto simp: handleOutboundData_def Let_def split: if_splits list.splits sum.splits)

lemma forwardBody_steady:
  assumes "if src = LConn then lInitialized p else rInitialized p"
    and "\<not> (serverProxyMode p \<and> wsUpgradeInitialized p)"
  shows "forwardBody p src dst (Some b) True =
           (if src = LConn then p\<lparr>bytesSent := bytesSent p + of_nat (length b)\<rparr>
            else p\<lparr>bytesReceived := bytesReceived p + of_nat (length b)\<rparr>,
            [Write dst b True], Continue)"
  using assms
  by (auto simp: forwardBody_def handleOutboundData_latched handleInboundData_latched)

lemma forwardBody_Continue:
  assumes "forwardBody p src dst rd wok = (p1, evs, Continue)"
  shows "(if src = LConn then lInitialized p1 else rInitialized p1)
         \<and> \<not> (serverProxyMode p1 \<and> wsUpgradeInitialized p1)"
proof (cases rd)
  case None
  then show ?thesis using assms by (simp add: forwardBody_def)
next
  case (Some b)
  show ?thesis
  proof (cases "src = LConn")
    case True
    then obtain q c where h: "handleOutboundData p b = Inr (q, c)"
      using assms Some by (cases "handleOutboundData p b") (auto simp: forwardBody_def)
    show ?thesis
      using assms Some True h handleOutboundData_fields(7) [OF h]
      by (auto simp: forwardBody_def split: if_splits)
  next
    case False
    then obtain q c where h: "handleInboundData p b = Inr (q, c)"
      using assms Some by (cases "handleInboundData p b") (auto simp: forwardBody_def)
    show ?thesis
      using assms Some False h handleInboundData_fields(7) [OF h]
      by (auto simp: forwardBody_def split: if_splits)
  qed
qed

lemma handleForwardData_steady:
  assumes "if src = LConn then lInitialized p else rInitialized p"
    and "\<not> (serverProxyMode p \<and> wsUpgradeInitialized p)"
  shows "\<exists>p2. handleForwardData p src dst (map (\<lambda>x. (Some x, True)) bs)
               = (p2, map (\<lambda>x. Write dst x True) bs, Running)"
  using assms
proof (induction bs arbitrary: p)
  case Nil
  then show ?case by simp
next
  case (Cons b bs)
  let ?p1 = "if src = LConn then p\<lparr>bytesSent := bytesSent p + of_nat (length b)\<rparr>
             else p\<lparr>bytesReceived := bytesReceived p + of_nat (length b)\<rparr>"
  have fb: "forwardBody p src dst (Some b) True = (?p1, [Write dst b True], Continue)"
    using Cons.prems by (rule forwardBody_steady)
  have "(if src = LConn then lInitialized ?p1 else rInitialized ?p1)
        \<and> \<not> (serverProxyMode ?p1 \<and> wsUpgradeInitialized ?p1)"
    using fb by (rule forwardBody_Continue)
  then obtain p2 where
    "handleForwardData ?p1 src dst (map (\<lambda>x. (Some x, True)) bs)
       = (p2, map (\<lambda>x. Write dst x True) bs, Running)"
    using Cons.IH [of ?p1] by blast
  then show ?case using fb by simp
qed

lemma SetServerHost_lPayload: "lPayload (SetServerHost q server) = lPayload q"
  by (simp add: SetServerHost_def split: sum.splits prod.splits)

lemma SetSNIHost_lPayload: "lPayload (SetSNIHost q sni) = lPayload q"
  by (simp add: SetSNIHost_def)

lemma forwardBody_lPayload:
  assumes "forwardBody q src dst rd wok = (q', evs, oc)"
  shows "lPayload q' = lPayload q"
proof (cases rd)
  case None
  then show ?thesis using assms by (simp add: forwardBody_def)
next
  case (Some b)
  show ?thesis
  proof (cases "if src = LConn then handleOutboundData q b else handleInboundData q b")
    case (Inl e)
    then show ?thesis using assms Some by (simp add: forwardBody_def)
  next
    case (Inr r)
    obtain q1 b1 where r: "r = (q1, b1)" by (cases r)
    have "lPayload q1 = lPayload q"
      using Inr r handleOutboundData_fields(2) [of q b q1 b1]
        handleInboundData_fields(2) [of q b q1 b1]
      by (auto split: if_splits)
    then show ?thesis
      using assms Some Inr r by (auto simp: forwardBody_def split: if_splits)
  qed
qed

section \<open>Facts about a running session\<close>

lemma forwardBody_shared:
  assumes "forwardBody p src dst rd wok = (p1, evs, oc)"
  shows "serverProxyMode p1 = serverProxyMode p" and "erred p1 = erred p"
    and "errSig p1 = errSig p" and "lInitialized p \<Longrightarrow> lInitialized p1"
proof -
  have "serverProxyMode p1 = serverProxyMode p \<and> erred p1 = erred p
        \<and> errSig p1 = errSig p \<and> (lInitialized p \<longrightarrow> lInitialized p1)"
  proof (cases rd)
    case None
    then show ?thesis using assms by (simp add: forwardBody_def)
  next
    case (Some b)
    show ?thesis
    proof (cases "if src = LConn then handleOutboundData p b else handleInboundData p b")
      case (Inl e)
      then show ?thesis using assms Some by (simp add: forwardBody_def)
    next
      case (Inr r)
      obtain q1 b1 where r: "r = (q1, b1)" by (cases r)
      have "serverProxyMode q1 = serverProxyMode p \<and> erred q1 = erred p
            \<and> errSig q1 = errSig p \<and> (lInitialized p \<longrightarrow> lInitialized q1)"
        using Inr r handleOutboundData_fields [of p b q1 b1]
          handleInboundData_fields [of p b q1 b1]
        by (auto split: if_splits)
      then show ?thesis
        using assms Some Inr r by (auto simp: forwardBody_def split: if_splits)
    qed
  qed
  then show "serverProxyMode p1 = serverProxyMode p" and "erred p1 = erred p"
    and "errSig p1 = errSig p" and "lInitialized p \<Longrightarrow> lInitialized p1"
    by simp_all
qed

lemma forwardBody_spawned:
  assumes "forwardBody p src dst rd wok = (p1, evs, oc)"
    and "\<not> (serverProxyMode p \<and> wsUpgradeInitialized p)"
  shows "\<not> (serverProxyMode p1 \<and> wsUpgradeInitialized p1)
         \<and> (spawned evs = []
            \<or> (serverProxyMode p \<and> \<not> lInitialized p \<and> lInitialized p1
                \<and> length (spawned evs) = 1))"
proof (cases rd)
  case None
  then show ?thesis using assms by (simp add: forwardBody_def)
next
  case (Some b)
  show ?thesis
  proof (cases "src = LConn")
    case True
    show ?thesis
    proof (cases "handleOutboundData p b")
      case (Inl e)
      then show ?thesis using assms Some True by (simp add: forwardBody_def)
    next
      case (Inr r)
      obtain q1 b1 where r: "r = (q1, b1)" by (cases r)
      have h: "handleOutboundData p b = Inr (q1, b1)" using Inr r by simp
      have m: "serverProxyMode q1 = serverProxyMode p" and l: "lInitialized q1"
        using handleOutboundData_fields [OF h] by simp_all
      have "lInitialized p \<Longrightarrow> q1 = p"
        using h by (simp add: handleOutboundData_latched)
      then have w: "serverProxyMode q1 \<and> wsUpgradeInitialized q1 \<Longrightarrow> \<not> lInitialized p"
        using assms(2) by auto
      show ?thesis
        using assms(1) Some True h m l w
        by (auto simp: forwardBody_def split: if_splits)
    qed
  next
    case False
    show ?thesis
    proof (cases "handleInboundData p b")
      case (Inl e)
      then show ?thesis using assms Some False by (simp add: forwardBody_def)
    next
      case (Inr r)
      obtain q1 b1 where r: "r = (q1, b1)" by (cases r)
      have h: "handleInboundData p b = Inr (q1, b1)" using Inr r by simp
      have m: "serverProxyMode q1 = serverProxyMode p"
        and w: "wsUpgradeInitialized q1 = wsUpgradeInitialized p"
        using handleInboundData_fields [OF h] by simp_all
      show ?thesis
        using assms Some False h m w
        by (auto simp: forwardBody_def split: if_splits)
    qed
  qed
qed

lemma length_filter_update:
  "i < length xs \<Longrightarrow>
     length (filter P (xs[i := y])) + (if P (xs ! i) then 1 else 0)
       = length (filter P xs) + (if P y then 1 else 0)"
proof (induction xs arbitrary: i)
  case Nil
  then show ?case by simp
next
  case (Cons x xs)
  then show ?case by (cases i) auto
qed

lemma list_ex_update:
  "i < length xs \<Longrightarrow> list_ex P (xs[i := y]) \<Longrightarrow> P y \<or> list_ex P xs"
  by (auto simp: list_ex_iff dest: set_update_subset_insert [THEN subsetD])

lemma spawned_not_pastSend: "filter pastSend (spawned evs) = []"
  by (induction evs rule: spawned.induct) (auto simp: pastSend_def)

lemma inv_start_init: "unstarted p \<Longrightarrow> inv_start (session0 p)"
  by (simp add: inv_start_def session0_def unstarted_def)

lemma inv_tasks_init: "unstarted p \<Longrightarrow> inv_tasks (session0 p)"
  by (simp add: inv_tasks_def session0_def unstarted_def)

lemma inv_sig_init: "unstarted p \<Longrightarrow> inv_sig (session0 p)"
  by (simp add: inv_sig_def session0_def unstarted_def)

lemma exec_Pass_cases:
  assumes "exec (Pass i rd wok) s = Some s1"
  obtains p1 evs where
      "forwardBody (shared s) (fst (tasks s ! i)) (fst (snd (tasks s ! i))) rd wok
         = (p1, evs, Continue)"
      and "s1 = s\<lparr>shared := p1, tasks := tasks s @ spawned evs\<rparr>"
      and "taskAt s i AtLoop" and "\<not> crashed s"
  | p1 evs where
      "forwardBody (shared s) (fst (tasks s ! i)) (fst (snd (tasks s ! i))) rd wok
         = (p1, evs, Failed)"
      and "s1 = s\<lparr>shared := p1, tasks := moveTask s i AtErrTest @ spawned evs\<rparr>"
      and "taskAt s i AtLoop" and "\<not> crashed s"
  | "s1 = s\<lparr>crashed := True\<rparr>" and "\<not> crashed s"
  using assms
  by (auto split: if_splits prod.splits outcome.splits)

lemma inv_start_step:
  assumes "inv_start s" and "exec a s = Some s1"
  shows "inv_start s1"
proof (cases a)
  case (Dial ok)
  then show ?thesis using assms by (auto simp: inv_start_def split: if_splits)
next
  case Observe
  then show ?thesis
    using assms by (auto simp: inv_start_def split: if_splits start_pc.splits)
next
  case (Pass i rd wok)
  from assms(2) [unfolded Pass] show ?thesis
  proof (cases rule: exec_Pass_cases)
    case (1 p1 evs)
    have "tasks s \<noteq> []" using 1(3) by (auto simp: taskAt_def)
    then show ?thesis
      using 1 assms(1) forwardBody_shared(3) [OF 1(1)]
      by (auto simp: inv_start_def split: start_pc.splits)
  next
    case (2 p1 evs)
    have "tasks s \<noteq> []" using 2(3) by (auto simp: taskAt_def)
    then show ?thesis
      using 2 assms(1) forwardBody_shared(3) [OF 2(1)]
      by (auto simp: inv_start_def moveTask_def split: start_pc.splits)
  next
    case 3
    then show ?thesis
      using assms(1) by (auto simp: inv_start_def split: start_pc.splits)
  qed
next
  case (Test i)
  then show ?thesis
    using assms by (auto simp: inv_start_def taskAt_def moveTask_def split: if_splits start_pc.splits)
next
  case (Send i)
  then show ?thesis
    using assms by (auto simp: inv_start_def taskAt_def moveTask_def split: if_splits start_pc.splits)
next
  case (Assign i)
  then show ?thesis
    using assms by (auto simp: inv_start_def taskAt_def moveTask_def split: if_splits start_pc.splits)
qed

lemma inv_tasks_step:
  assumes "inv_tasks s" and "inv_start s" and "exec a s = Some s1"
  shows "inv_tasks s1"
proof (cases a)
  case (Dial ok)
  then show ?thesis
    using assms by (auto simp: inv_tasks_def inv_start_def split: if_splits)
next
  case Observe
  then show ?thesis using assms by (auto simp: inv_tasks_def split: if_splits)
next
  case (Pass i rd wok)
  from assms(3) [unfolded Pass] show ?thesis
  proof (cases rule: exec_Pass_cases)
    case (1 p1 evs)
    show ?thesis
      using assms(1) 1(2) forwardBody_shared(1,4) [OF 1(1)]
        forwardBody_spawned [OF 1(1)]
      by (auto simp: inv_tasks_def split: if_splits)
  next
    case (2 p1 evs)
    show ?thesis
      using assms(1) 2(2) forwardBody_shared(1,4) [OF 2(1)]
        forwardBody_spawned [OF 2(1)]
      by (auto simp: inv_tasks_def moveTask_def split: if_splits)
  next
    case 3
    then show ?thesis using assms(1) by (simp add: inv_tasks_def)
  qed
next
  case (Test i)
  then show ?thesis
    using assms by (auto simp: inv_tasks_def moveTask_def split: if_splits)
next
  case (Send i)
  then show ?thesis
    using assms by (auto simp: inv_tasks_def moveTask_def split: if_splits)
next
  case (Assign i)
  then show ?thesis
    using assms by (auto simp: inv_tasks_def moveTask_def split: if_splits)
qed

lemma pastSend_simps:
  "pastSend (a, b, l) = (l = AtErrSet \<or> l = Exited)"
  by (simp add: pastSend_def)

lemma list_ex_spawned: "\<not> list_ex pastSend (spawned evs)"
  by (induction evs rule: spawned.induct) (auto simp: pastSend_def)

lemma list_ex_moveTask:
  assumes "i < length (tasks s)" and "l \<noteq> AtErrSet" and "l \<noteq> Exited"
    and "list_ex pastSend (moveTask s i l)"
  shows "list_ex pastSend (tasks s)"
  using list_ex_update [OF assms(1), of pastSend "(fst (tasks s ! i), fst (snd (tasks s ! i)), l)"]
    assms(2-4)
  by (simp add: moveTask_def pastSend_def)

lemma inv_sig_move:
  assumes "inv_sig s" and "taskAt s i l" and "\<not> pastSend (a, b, l)"
  shows "asserted s \<le> length (filter pastSend ((tasks s)[i := (a, b, l')]))"
    and "pastSend (a, b, l') \<Longrightarrow>
           Suc (asserted s) \<le> length (filter pastSend ((tasks s)[i := (a, b, l')]))"
proof -
  have i: "i < length (tasks s)" and n: "\<not> pastSend (tasks s ! i)"
    using assms(2,3) by (auto simp: taskAt_def pastSend_def)
  have e: "length (filter pastSend ((tasks s)[i := (a, b, l')]))
           = length (filter pastSend (tasks s)) + (if pastSend (a, b, l') then 1 else 0)"
    using length_filter_update [OF i, of pastSend "(a, b, l')"] n by simp
  show "asserted s \<le> length (filter pastSend ((tasks s)[i := (a, b, l')]))"
    using assms(1) e by (simp add: inv_sig_def)
  show "Suc (asserted s) \<le> length (filter pastSend ((tasks s)[i := (a, b, l')]))"
    if "pastSend (a, b, l')"
    using assms(1) e that by (simp add: inv_sig_def)
qed

lemma inv_sig_step:
  assumes "inv_sig s" and "exec a s = Some s1" and "inv_start s"
  shows "inv_sig s1"
proof (cases a)
  case (Dial ok)
  then have "startPc s = AtDial" using assms(2) by (auto split: if_splits)
  then have "asserted s = 0" and "tasks s = []" using assms(3) by (simp_all add: inv_start_def)
  then show ?thesis
    using Dial assms(1,2) by (auto simp: inv_sig_def pastSend_def split: if_splits)
next
  case Observe
  then show ?thesis using assms by (auto simp: inv_sig_def split: if_splits)
next
  case (Pass i rd wok)
  from assms(2) [unfolded Pass] show ?thesis
  proof (cases rule: exec_Pass_cases)
    case (1 p1 evs)
    then show ?thesis
      using assms(1) forwardBody_shared(2) [OF 1(1)]
      by (auto simp: inv_sig_def spawned_not_pastSend list_ex_spawned)
  next
    case (2 p1 evs)
    have i: "i < length (tasks s)" using 2(3) by (simp add: taskAt_def)
    have m: "asserted s \<le> length (filter pastSend (moveTask s i AtErrTest))"
      unfolding moveTask_def
      using inv_sig_move(1) [OF assms(1) 2(3)] by (simp add: pastSend_def)
    have "list_ex pastSend (moveTask s i AtErrTest) \<Longrightarrow> list_ex pastSend (tasks s)"
      using list_ex_moveTask [OF i, of AtErrTest] by simp
    then show ?thesis
      using 2 assms(1) m forwardBody_shared(2) [OF 2(1)]
      by (auto simp: inv_sig_def spawned_not_pastSend list_ex_spawned)
  next
    case 3
    then show ?thesis using assms(1) by (simp add: inv_sig_def)
  qed
next
  case (Test i)
  have t: "taskAt s i AtErrTest" and n: "\<not> crashed s"
    and s1: "s1 = s\<lparr>tasks := moveTask s i (if erred (shared s) then Exited else AtErrSend)\<rparr>"
    using assms(2) Test by (auto split: if_splits)
  have i: "i < length (tasks s)" using t by (simp add: taskAt_def)
  show ?thesis
  proof (cases "erred (shared s)")
    case True
    then have "1 \<le> asserted s" using assms(1) by (simp add: inv_sig_def)
    moreover have "asserted s \<le> length (filter pastSend (moveTask s i Exited))"
      unfolding moveTask_def
      using inv_sig_move(1) [OF assms(1) t] by (simp add: pastSend_def)
    ultimately show ?thesis using s1 True by (simp add: inv_sig_def)
  next
    case False
    have "asserted s \<le> length (filter pastSend (moveTask s i AtErrSend))"
      unfolding moveTask_def
      using inv_sig_move(1) [OF assms(1) t] by (simp add: pastSend_def)
    moreover have "list_ex pastSend (moveTask s i AtErrSend) \<Longrightarrow> list_ex pastSend (tasks s)"
      using list_ex_moveTask [OF i, of AtErrSend] by simp
    ultimately show ?thesis
      using s1 False assms(1) by (auto simp: inv_sig_def)
  qed
next
  case (Send i)
  have t: "taskAt s i AtErrSend"
    and s1: "s1 = s\<lparr>shared := (shared s)\<lparr>errSig := Suc (errSig (shared s))\<rparr>,
                   asserted := Suc (asserted s), tasks := moveTask s i AtErrSet\<rparr>"
    using assms(2) Send by (auto split: if_splits)
  have "Suc (asserted s) \<le> length (filter pastSend (moveTask s i AtErrSet))"
    unfolding moveTask_def
    using inv_sig_move(2) [OF assms(1) t] by (simp add: pastSend_def)
  then show ?thesis using s1 by (simp add: inv_sig_def)
next
  case (Assign i)
  have t: "taskAt s i AtErrSet"
    and s1: "s1 = s\<lparr>shared := (shared s)\<lparr>erred := True\<rparr>, tasks := moveTask s i Exited\<rparr>"
    using assms(2) Assign by (auto split: if_splits)
  have i: "i < length (tasks s)" and p: "pastSend (tasks s ! i)"
    using t by (auto simp: taskAt_def pastSend_def)
  have "list_ex pastSend (tasks s)"
    using i p by (auto simp: list_ex_iff)
  then have one: "1 \<le> asserted s" using assms(1) by (simp add: inv_sig_def)
  have "length (filter pastSend (moveTask s i Exited)) = length (filter pastSend (tasks s))"
    unfolding moveTask_def
    using length_filter_update [OF i, of pastSend "(fst (tasks s ! i), fst (snd (tasks s ! i)), Exited)"] p
    by (simp add: pastSend_def)
  then show ?thesis using s1 one assms(1) by (simp add: inv_sig_def)
qed

lemma invs_init: "unstarted p \<Longrightarrow> invs (session0 p)"
  by (simp add: invs_def inv_start_init inv_tasks_init inv_sig_init)

lemma invs_step: "invs s \<Longrightarrow> exec a s = Some s1 \<Longrightarrow> invs s1"
  unfolding invs_def
  using inv_start_step inv_tasks_step inv_sig_step by blast

lemma invs_run: "invs s \<Longrightarrow> run s sched = Some s1 \<Longrightarrow> invs s1"
proof (induction sched arbitrary: s)
  case Nil
  then show ?case by simp
next
  case (Cons a as)
  then obtain s2 where e: "exec a s = Some s2" and r: "run s2 as = Some s1"
    by (auto split: option.splits)
  have "invs s2" using Cons.prems(1) e by (rule invs_step)
  then show ?case using r by (rule Cons.IH)
qed

lemma length_filter_mono:
  "(\<And>x. P x \<Longrightarrow> Q x) \<Longrightarrow> length (filter P xs) \<le> length (filter Q xs)"
  by (induction xs) auto

lemma invs_counts:
  assumes "invs s"
  shows "observed s \<le> 1" and "closedL s \<le> 1" and "closedR s \<le> 1"
    and "asserted s \<le> 2" and "asserted s \<le> length (filter failedTask (tasks s))"
    and "errSig (shared s) \<le> asserted s"
proof -
  have st: "inv_start s" and tk: "inv_tasks s" and sg: "inv_sig s"
    using assms by (simp_all add: invs_def)
  show "observed s \<le> 1" and "closedL s \<le> 1" and "closedR s \<le> 1"
    using st by (auto simp: inv_start_def split: start_pc.splits if_splits)
  have "length (filter pastSend (tasks s)) \<le> length (tasks s)" by simp
  also have "\<dots> \<le> 2" using tk by (auto simp: inv_tasks_def split: if_splits)
  finally show "asserted s \<le> 2" using sg by (simp add: inv_sig_def)
  have "length (filter pastSend (tasks s)) \<le> length (filter failedTask (tasks s))"
    by (rule length_filter_mono) (auto simp: pastSend_def failedTask_def)
  then show "asserted s \<le> length (filter failedTask (tasks s))"
    using sg by (simp add: inv_sig_def)
  show "errSig (shared s) \<le> asserted s" using st by (simp add: inv_start_def)
qed

lemma invs_send_enabled:
  assumes "invs s" and "taskAt s i AtErrSend"
  shows "errSig (shared s) < 2"
proof -
  have i: "i < length (tasks s)" and n: "\<not> pastSend (tasks s ! i)"
    using assms(2) by (auto simp: taskAt_def pastSend_def)
  have "tasks s ! i \<in> set (tasks s)" using i by simp
  then have "length (filter pastSend (tasks s)) < length (tasks s)"
    using n by (rule length_filter_less)
  moreover have "length (tasks s) \<le> 2"
    using assms(1) by (auto simp: invs_def inv_tasks_def split: if_splits)
  moreover have "asserted s \<le> length (filter pastSend (tasks s))"
    using assms(1) by (simp add: invs_def inv_sig_def)
  ultimately have "asserted s \<le> 1" by simp
  then show ?thesis using invs_counts(6) [OF assms(1)] by simp
qed

lemma observe_enabled:
  assumes "invs s" and "\<not> crashed s" and "startPc s = AtWait" and "1 \<le> asserted s"
  shows "\<exists>s1. exec Observe s = Some s1 \<and> startPc s1 = AtEnd \<and> observed s1 = 1"
proof -
  have "observed s = 0" and "errSig (shared s) + observed s = asserted s"
    using assms(1,3) by (simp_all add: invs_def inv_start_def)
  then have "errSig (shared s) \<noteq> 0" using assms(4) by simp
  then show ?thesis using assms(2,3) \<open>observed s = 0\<close> by simp
qed

lemma send_then_observe:
  assumes "invs s" and "\<not> crashed s" and "startPc s = AtWait" and "taskAt s i AtErrSend"
  shows "\<exists>s1. run s [Send i, Observe] = Some s1 \<and> startPc s1 = AtEnd \<and> observed s1 = 1"
proof -
  have "errSig (shared s) < 2" using assms(1,4) by (rule invs_send_enabled)
  then obtain s2 where e: "exec (Send i) s = Some s2"
    and s2: "\<not> crashed s2" "startPc s2 = AtWait" "asserted s2 = Suc (asserted s)"
    using assms(2-4) by simp
  have "invs s2" using assms(1) e by (rule invs_step)
  then obtain s1 where "exec Observe s2 = Some s1" and "startPc s1 = AtEnd" and "observed s1 = 1"
    using observe_enabled [of s2] s2 by auto
  then show ?thesis using e by simp
qed

lemma failed_task_progress:
  assumes "invs s" and "\<not> crashed s" and "startPc s = AtWait"
    and "i < length (tasks s)" and "failedTask (tasks s ! i)"
  shows "\<exists>more s1. run s more = Some s1 \<and> startPc s1 = AtEnd \<and> observed s1 = 1"
proof (cases "snd (snd (tasks s ! i))")
  case AtLoop
  then show ?thesis using assms(5) by (simp add: failedTask_def)
next
  case AtErrTest
  then have t: "taskAt s i AtErrTest" using assms(4) by (simp add: taskAt_def)
  then obtain s2 where e: "exec (Test i) s = Some s2"
    and s2: "\<not> crashed s2" "startPc s2 = AtWait" "asserted s2 = asserted s"
      "tasks s2 = moveTask s i (if erred (shared s) then Exited else AtErrSend)"
    using assms(2,3) by simp
  have i2: "invs s2" using assms(1) e by (rule invs_step)
  show ?thesis
  proof (cases "erred (shared s)")
    case True
    then have "1 \<le> asserted s2"
      using assms(1) s2(3) by (simp add: invs_def inv_sig_def)
    then obtain s1 where "exec Observe s2 = Some s1" and "startPc s1 = AtEnd" and "observed s1 = 1"
      using observe_enabled [OF i2 s2(1,2)] by auto
    then have "run s [Test i, Observe] = Some s1 \<and> startPc s1 = AtEnd \<and> observed s1 = 1"
      using e by simp
    then show ?thesis by blast
  next
    case False
    then have "taskAt s2 i AtErrSend"
      using s2(4) assms(4) by (simp add: taskAt_def moveTask_def)
    then obtain s1 where "run s2 [Send i, Observe] = Some s1" and "startPc s1 = AtEnd"
      and "observed s1 = 1"
      using send_then_observe [OF i2 s2(1,2)] by blast
    then have "run s [Test i, Send i, Observe] = Some s1 \<and> startPc s1 = AtEnd \<and> observed s1 = 1"
      using e by simp
    then show ?thesis by blast
  qed
next
  case AtErrSend
  then have "taskAt s i AtErrSend" using assms(4) by (simp add: taskAt_def)
  then show ?thesis using send_then_observe [OF assms(1-3)] by blast
next
  case AtErrSet
  then have "list_ex pastSend (tasks s)"
    using assms(4) by (auto simp: list_ex_iff pastSend_def)
  then have "1 \<le> asserted s" using assms(1) by (simp add: invs_def inv_sig_def)
  then obtain s1 where "exec Observe s = Some s1" and "startPc s1 = AtEnd" and "observed s1 = 1"
    using observe_enabled [OF assms(1-3)] by auto
  then have "run s [Observe] = Some s1 \<and> startPc s1 = AtEnd \<and> observed s1 = 1" by simp
  then show ?thesis by blast
next
  case Exited
  then have "list_ex pastSend (tasks s)"
    using assms(4) by (auto simp: list_ex_iff pastSend_def)
  then have "1 \<le> asserted s" using assms(1) by (simp add: invs_def inv_sig_def)
  then obtain s1 where "exec Observe s = Some s1" and "startPc s1 = AtEnd" and "observed s1 = 1"
    using observe_enabled [OF assms(1-3)] by auto
  then have "run s [Observe] = Some s1 \<and> startPc s1 = AtEnd \<and> observed s1 = 1" by simp
  then show ?thesis by blast
qed

lemma unstarted_setters:
  "unstarted (NewProxy cid sec)"
  "unstarted p \<Longrightarrow> unstarted (SetlPayload p t)"
  "unstarted p \<Longrightarrow> unstarted (SetrPayload p t)"
  "unstarted p \<Longrightarrow> unstarted (SetServerProxyMode p en)"
  "unstarted p \<Longrightarrow> unstarted (SetServerHost p server)"
  "unstarted p \<Longrightarrow> unstarted (SetBufferSize p n)"
  "unstarted p \<Longrightarrow> unstarted (SetEnableTLS p en)"
  "unstarted p \<Longrightarrow> unstarted (SetSNIHost p sni)"
  "unstarted p \<Longrightarrow> unstarted (SetProxyKind p kind)"
  by (auto simp: unstarted_def setter_defs Let_def split: sum.splits prod.splits)

section \<open>The completion signal and the release of the streams\<close>

text \<open>
  Claim C1, as stated, has the completion signal asserted at most once whatever the
  interleaving. \<open>err\<close> tests \<open>p.erred\<close>, sends on \<open>p.errSig\<close> and only then sets
  \<open>p.erred\<close>, with no lock around the three statements: when both tasks of a client
  session fail and both test the flag before either sets it, both send. The channel has
  room for the two values, so neither send waits, and \<open>Start\<close> receives one of them.
\<close>

theorem completion_signal_counterexample:
  "unstarted (NewProxy 1 False)
   \<and> map_option asserted
       (run (session0 (NewProxy 1 False))
          [Dial True, Pass 0 None True, Pass 1 None True, Test 0, Test 1,
           Send 0, Send 1, Assign 0, Assign 1, Observe])
     = Some 2"
  by (simp add: unstarted_def session_defs forwardBody_def NewProxy_def)

text \<open>
  Claim C1, amended. For a session handed to \<open>Start\<close> as the setters leave it, and for
  every schedule of the steps of \<open>Start\<close> and of its tasks (failures at the same time
  included): the signal is sent at most twice, and at most once per task that has
  failed; no send ever waits; \<open>Start\<close> receives at most once, and exactly once when it
  has returned after a dial that succeeded; once a task has failed, \<open>Start\<close> can always
  go on to receive and return. When \<open>Start\<close> has returned, the local stream has been
  closed exactly once, and the remote stream exactly once after a dial that succeeded and
  not at all after a dial that failed, where it was never opened; before \<open>Start\<close> returns
  nothing is closed. Calls of \<open>err\<close> that do not overlap send once: a call that returns
  leaves \<open>erred\<close> set, and a call with \<open>erred\<close> set sends nothing.
\<close>

theorem session_termination:
  assumes "unstarted p" and "run (session0 p) sched = Some s"
  shows "observed s \<le> 1 \<and> closedL s \<le> 1 \<and> closedR s \<le> 1
         \<and> asserted s \<le> 2 \<and> asserted s \<le> length (filter failedTask (tasks s))
         \<and> (startPc s = AtEnd \<longrightarrow>
               closedL s = 1 \<and> closedR s = observed s
               \<and> (tasks s = [] \<longrightarrow> observed s = 0 \<and> asserted s = 0)
               \<and> (tasks s \<noteq> [] \<longrightarrow> observed s = 1))
         \<and> (startPc s \<noteq> AtEnd \<longrightarrow> observed s = 0 \<and> closedL s = 0 \<and> closedR s = 0)
         \<and> (\<forall>i. taskAt s i AtErrSend \<longrightarrow> errSig (shared s) < 2)
         \<and> (\<forall>i. \<not> crashed s \<and> startPc s = AtWait \<and> i < length (tasks s)
                  \<and> failedTask (tasks s ! i)
               \<longrightarrow> (\<exists>more s1. run s more = Some s1 \<and> startPc s1 = AtEnd \<and> observed s1 = 1))
         \<and> (\<forall>q q1. err q = Some q1 \<longrightarrow>
               erred q1 \<and> err q1 = Some q1
               \<and> errSig q1 = (if erred q then errSig q else Suc (errSig q)))"
proof -
  have "invs (session0 p)" using assms(1) by (rule invs_init)
  then have i: "invs s" using assms(2) by (rule invs_run)
  then have st: "inv_start s" by (simp add: invs_def)
  have c: "observed s \<le> 1 \<and> closedL s \<le> 1 \<and> closedR s \<le> 1
         \<and> asserted s \<le> 2 \<and> asserted s \<le> length (filter failedTask (tasks s))"
    using invs_counts [OF i] by simp
  have e: "startPc s = AtEnd \<longrightarrow>
               closedL s = 1 \<and> closedR s = observed s
               \<and> (tasks s = [] \<longrightarrow> observed s = 0 \<and> asserted s = 0)
               \<and> (tasks s \<noteq> [] \<longrightarrow> observed s = 1)"
    using st by (auto simp: inv_start_def)
  have w: "startPc s \<noteq> AtEnd \<longrightarrow> observed s = 0 \<and> closedL s = 0 \<and> closedR s = 0"
    using st by (cases "startPc s") (auto simp: inv_start_def)
  have b: "\<forall>i. taskAt s i AtErrSend \<longrightarrow> errSig (shared s) < 2"
    using invs_send_enabled [OF i] by blast
  have g: "\<forall>i. \<not> crashed s \<and> startPc s = AtWait \<and> i < length (tasks s)
                  \<and> failedTask (tasks s ! i)
               \<longrightarrow> (\<exists>more s1. run s more = Some s1 \<and> startPc s1 = AtEnd \<and> observed s1 = 1)"
    using failed_task_progress [OF i] by blast
  have a: "\<forall>q q1. err q = Some q1 \<longrightarrow>
               erred q1 \<and> err q1 = Some q1
               \<and> errSig q1 = (if erred q then errSig q else Suc (errSig q))"
    by (auto simp: err_def split: if_splits)
  show ?thesis using c e w b g a by blast
qed

theorem session_termination_witness:
  "unstarted (NewProxy 1 False)
   \<and> run (session0 (NewProxy 1 False))
        [Dial True, Pass 0 None True, Test 0, Send 0, Assign 0, Pass 1 None True, Test 1, Observe]
     = Some (the (run (session0 (NewProxy 1 False))
        [Dial True, Pass 0 None True, Test 0, Send 0, Assign 0, Pass 1 None True, Test 1, Observe]))
   \<and> startPc (the (run (session0 (NewProxy 1 False))
        [Dial True, Pass 0 None True, Test 0, Send 0, Assign 0, Pass 1 None True, Test 1, Observe]))
     = AtEnd
   \<and> tasks (the (run (session0 (NewProxy 1 False))
        [Dial True, Pass 0 None True, Test 0, Send 0, Assign 0, Pass 1 None True, Test 1, Observe]))
     \<noteq> []
   \<and> observed (the (run (session0 (NewProxy 1 False))
        [Dial True, Pass 0 None True, Test 0, Send 0, Assign 0, Pass 1 None True, Test 1, Observe]))
     = 1
   \<and> closedL (the (run (session0 (NewProxy 1 False))
        [Dial True, Pass 0 None True, Test 0, Send 0, Assign 0, Pass 1 None True, Test 1, Observe]))
     = 1
   \<and> closedR (the (run (session0 (NewProxy 1 False))
        [Dial True, Pass 0 None True, Test 0, Send 0, Assign 0, Pass 1 None True, Test 1, Observe]))
     = 1
   \<and> asserted (the (run (session0 (NewProxy 1 False))
        [Dial True, Pass 0 None True, Test 0, Send 0, Assign 0, Pass 1 None True, Test 1, Observe]))
     = 1
   \<and> run (session0 (NewProxy 1 False)) [Dial False]
     = Some (the (run (session0 (NewProxy 1 False)) [Dial False]))
   \<and> startPc (the (run (session0 (NewProxy 1 False)) [Dial False])) = AtEnd
   \<and> tasks (the (run (session0 (NewProxy 1 False)) [Dial False])) = []
   \<and> closedL (the (run (session0 (NewProxy 1 False)) [Dial False])) = 1
   \<and> closedR (the (run (session0 (NewProxy 1 False)) [Dial False])) = 0
   \<and> observed (the (run (session0 (NewProxy 1 False)) [Dial False])) = 0"
proof -
  let ?p = "NewProxy 1 False"
  let ?a = "[Dial True, Pass 0 None True, Test 0, Send 0, Assign 0, Pass 1 None True, Test 1,
             Observe]"
  let ?s = "the (run (session0 ?p) ?a)"
  let ?f = "the (run (session0 ?p) [Dial False])"
  have u: "unstarted ?p" by (simp add: unstarted_def NewProxy_def)
  have r: "run (session0 ?p) ?a = Some ?s"
    by (simp add: session_defs forwardBody_def NewProxy_def)
  have e: "startPc ?s = AtEnd" and t: "tasks ?s \<noteq> []" and n: "asserted ?s = 1"
    by (simp_all add: session_defs forwardBody_def NewProxy_def)
  have "closedL ?s = 1 \<and> closedR ?s = observed ?s \<and> observed ?s = 1"
    using session_termination [OF u r] e t by blast
  then have o: "observed ?s = 1" and l: "closedL ?s = 1" and c: "closedR ?s = 1"
    by simp_all
  have r2: "run (session0 ?p) [Dial False] = Some ?f"
    by (simp add: session_defs NewProxy_def)
  have e2: "startPc ?f = AtEnd" and t2: "tasks ?f = []"
    by (simp_all add: session_defs NewProxy_def)
  have "closedL ?f = 1 \<and> closedR ?f = observed ?f \<and> observed ?f = 0"
    using session_termination [OF u r2] e2 t2 by blast
  then have o2: "observed ?f = 0" and l2: "closedL ?f = 1" and c2: "closedR ?f = 0"
    by simp_all
  show ?thesis
    by (intro conjI) (rule u r e t o l c n r2 e2 t2 l2 c2 o2)+
qed

section \<open>The answer to the upgrade and the reverse task\<close>

text \<open>
  Claim C2, as stated, has the forwarding task write the rewritten buffer to the
  destination stream. In the source the branch taken when the hook has set
  \<open>wsUpgradeInitialized\<close> calls \<open>src.Write\<close>: the 101 response goes back on the stream
  the request was read from, and nothing is written to the destination in that pass.
\<close>

theorem server_upgrade_relink_counterexample:
  "fst (snd (forwardBody (SetServerProxyMode (NewProxy 1 False) True) LConn RConn
               (Some (''GET / HTTP/1.1'' @ CRLF @ ''Upgrade: websocket'' @ CRLF @ CRLF)) True))
     = [Write LConn wsResponse True, Spawn RConn LConn]
   \<and> Write RConn wsResponse True
       \<notin> set (fst (snd (forwardBody (SetServerProxyMode (NewProxy 1 False) True) LConn RConn
               (Some (''GET / HTTP/1.1'' @ CRLF @ ''Upgrade: websocket'' @ CRLF @ CRLF)) True)))"
  by (simp add: lib_defs setter_defs hook_defs forwardBody_def)

text \<open>
  Claim C2, amended. In server mode, when the outbound hook has just set
  \<open>wsUpgradeInitialized\<close> (the first local buffer has a line with the upgrade header),
  the pass writes the 101 response to the source of the task, the local stream,
  clears the flag and starts a task for the reverse direction, from the remote stream to
  the local one; the start happens whether or not the write succeeded. After a write that
  succeeded the count \<open>bytesSent\<close> grows by the length of the response and the task goes
  on with its loop in its own direction; after a write that failed it calls \<open>err\<close>
  and returns.
\<close>

theorem server_upgrade_relink:
  assumes "serverProxyMode p" and "\<not> lInitialized p" and "doUpgrade (scanLines b)"
  shows "forwardBody p LConn RConn (Some b) wok =
           (if wok
            then p\<lparr>lInitialized := True, wsUpgradeInitialized := False,
                   bytesSent := bytesSent p + of_nat (length wsResponse)\<rparr>
            else p\<lparr>lInitialized := True, wsUpgradeInitialized := False\<rparr>,
            [Write LConn wsResponse wok, Spawn RConn LConn],
            if wok then Continue else Failed)
         \<and> handleForwardData p LConn RConn ((Some b, True) # io) =
             (case handleForwardData
                     (p\<lparr>lInitialized := True, wsUpgradeInitialized := False,
                        bytesSent := bytesSent p + of_nat (length wsResponse)\<rparr>)
                     LConn RConn io of
                (p2, evs2, st) \<Rightarrow>
                  (p2, Write LConn wsResponse True # Spawn RConn LConn # evs2, st))"
proof -
  have h: "handleOutboundData p b =
             Inr (p\<lparr>wsUpgradeInitialized := True, lInitialized := True\<rparr>, wsResponse)"
    using assms by (simp add: handleOutboundData_def)
  have fb: "forwardBody p LConn RConn (Some b) wok =
           (if wok
            then p\<lparr>lInitialized := True, wsUpgradeInitialized := False,
                   bytesSent := bytesSent p + of_nat (length wsResponse)\<rparr>
            else p\<lparr>lInitialized := True, wsUpgradeInitialized := False\<rparr>,
            [Write LConn wsResponse wok, Spawn RConn LConn],
            if wok then Continue else Failed)" for wok
    using assms(1) by (simp add: forwardBody_def h)
  show ?thesis
    using fb [of wok] fb [of True] by (simp split: prod.splits)
qed

theorem server_upgrade_relink_witness:
  "serverProxyMode (SetServerProxyMode (NewProxy 1 False) True)
   \<and> \<not> lInitialized (SetServerProxyMode (NewProxy 1 False) True)
   \<and> doUpgrade (scanLines (''GET / HTTP/1.1'' @ CRLF @ ''Upgrade: websocket'' @ CRLF @ CRLF))
   \<and> fst (snd (handleForwardData (SetServerProxyMode (NewProxy 1 False) True) LConn RConn
                 [(Some (''GET / HTTP/1.1'' @ CRLF @ ''Upgrade: websocket'' @ CRLF @ CRLF), True),
                  (Some ''SSH-2.0-client'', True)]))
     = [Write LConn wsResponse True, Spawn RConn LConn, Write RConn ''SSH-2.0-client'' True]
   \<and> wsUpgradeInitialized
        (fst (forwardBody (SetServerProxyMode (NewProxy 1 False) True) LConn RConn
                (Some (''GET / HTTP/1.1'' @ CRLF @ ''Upgrade: websocket'' @ CRLF @ CRLF)) True))
     = False"
proof -
  let ?p = "SetServerProxyMode (NewProxy 1 False) True"
  let ?b = "''GET / HTTP/1.1'' @ CRLF @ ''Upgrade: websocket'' @ CRLF @ CRLF"
  have m: "serverProxyMode ?p" and i: "\<not> lInitialized ?p"
    by (simp_all add: setter_defs)
  have u: "doUpgrade (scanLines ?b)"
    by (simp add: lib_defs doUpgrade_def)
  note t = server_upgrade_relink [OF m i u]
  have g: "fst (snd (handleForwardData ?p LConn RConn
                 [(Some ?b, True), (Some ''SSH-2.0-client'', True)]))
     = [Write LConn wsResponse True, Spawn RConn LConn, Write RConn ''SSH-2.0-client'' True]"
    using t [of True "[(Some ''SSH-2.0-client'', True)]", THEN conjunct2]
    by (simp add: forward_defs hook_defs setter_defs)
  have w: "wsUpgradeInitialized (fst (forwardBody ?p LConn RConn (Some ?b) True)) = False"
    using t [of True "[]", THEN conjunct1] by simp
  show ?thesis
    by (intro conjI) (rule m i u g w)+
qed

section \<open>The outbound hook in server mode\<close>

text \<open>
  Claim C3, as stated, names one fixed response, with the lines \<open>Upgrade: websocket\<close> and
  \<open>Connection: Upgrade\<close>. The repository holds the hook twice, and the one of the
  earlier \<open>proxy.go\<close> answers the same request with \<open>HTTP/1.1 101 Switching Protocols\<close>
  and an empty line only.
\<close>

theorem server_outbound_hook_upgrade_counterexample:
  "handleOutboundData_root (SetServerProxyMode (NewProxy 1 False) True)
     (''GET / HTTP/1.1'' @ CRLF @ ''Upgrade: websocket'' @ CRLF @ CRLF)
   = ((SetServerProxyMode (NewProxy 1 False) True)
        \<lparr>wsUpgradeInitialized := True, lInitialized := True\<rparr>,
      ''HTTP/1.1 101 Switching Protocols'' @ [CHR 0x0D, CHR 0x0A, CHR 0x0D, CHR 0x0A])
   \<and> ''HTTP/1.1 101 Switching Protocols'' @ [CHR 0x0D, CHR 0x0A, CHR 0x0D, CHR 0x0A]
     \<noteq> ''HTTP/1.1 101 Switching Protocols'' @ [CHR 0x0D, CHR 0x0A]
       @ ''Upgrade: websocket'' @ [CHR 0x0D, CHR 0x0A]
       @ ''Connection: Upgrade'' @ [CHR 0x0D, CHR 0x0A, CHR 0x0D, CHR 0x0A]"
  by (simp add: lib_defs setter_defs root_defs)

text \<open>
  Claim C3, amended. In server mode the outbound hook, on the first buffer read from the
  local stream, looks in lower case for \<open>upgrade: websocket\<close>: in every line of the
  buffer in \<open>pkg/proxy/proxy.go\<close>, in the whole buffer in the earlier \<open>proxy.go\<close>. When
  it is found, the buffer becomes a fixed 101 response whose line ends are the bytes
  \<open>0x0D 0x0A\<close>, and \<open>wsUpgradeInitialized\<close> is set: the response is
  \<open>HTTP/1.1 101 Switching Protocols\<close>, \<open>Upgrade: websocket\<close>, \<open>Connection: Upgrade\<close> and
  an empty line in \<open>pkg/proxy/proxy.go\<close>, and \<open>HTTP/1.1 101 Switching Protocols\<close> and
  an empty line in the earlier file. When it is not found, the buffer is left as it was
  read. Either way the hook is marked as fired.
\<close>

theorem server_outbound_hook_upgrade:
  assumes "serverProxyMode p" and "\<not> lInitialized p"
  shows "handleOutboundData p buf =
     (if list_ex (\<lambda>l. Contains (ToLower l) ''upgrade: websocket'') (scanLines buf)
      then Inr (p\<lparr>wsUpgradeInitialized := True, lInitialized := True\<rparr>,
                ''HTTP/1.1 101 Switching Protocols'' @ [CHR 0x0D, CHR 0x0A]
                @ ''Upgrade: websocket'' @ [CHR 0x0D, CHR 0x0A]
                @ ''Connection: Upgrade'' @ [CHR 0x0D, CHR 0x0A, CHR 0x0D, CHR 0x0A])
      else Inr (p\<lparr>lInitialized := True\<rparr>, buf))
     \<and> handleOutboundData_root p buf =
     (if Contains (ToLower buf) ''upgrade: websocket''
      then (p\<lparr>wsUpgradeInitialized := True, lInitialized := True\<rparr>,
            ''HTTP/1.1 101 Switching Protocols'' @ [CHR 0x0D, CHR 0x0A, CHR 0x0D, CHR 0x0A])
      else (p\<lparr>lInitialized := True\<rparr>, buf))"
  using assms by (simp add: hook_defs root_defs CRLF_def CR_def LF_def)

theorem server_outbound_hook_upgrade_witness:
  "serverProxyMode (SetServerProxyMode (NewProxy 1 False) True)
   \<and> \<not> lInitialized (SetServerProxyMode (NewProxy 1 False) True)
   \<and> handleOutboundData (SetServerProxyMode (NewProxy 1 False) True)
        (''GET / HTTP/1.1'' @ CRLF @ ''UPGRADE: WebSocket'' @ CRLF @ CRLF)
      = Inr ((SetServerProxyMode (NewProxy 1 False) True)
               \<lparr>wsUpgradeInitialized := True, lInitialized := True\<rparr>,
             ''HTTP/1.1 101 Switching Protocols'' @ [CHR 0x0D, CHR 0x0A]
             @ ''Upgrade: websocket'' @ [CHR 0x0D, CHR 0x0A]
             @ ''Connection: Upgrade'' @ [CHR 0x0D, CHR 0x0A, CHR 0x0D, CHR 0x0A])
   \<and> handleOutboundData (SetServerProxyMode (NewProxy 1 False) True)
        (''GET / HTTP/1.1'' @ CRLF @ ''Host: x'' @ CRLF @ CRLF)
      = Inr ((SetServerProxyMode (NewProxy 1 False) True)\<lparr>lInitialized := True\<rparr>,
             ''GET / HTTP/1.1'' @ CRLF @ ''Host: x'' @ CRLF @ CRLF)
   \<and> handleOutboundData_root (SetServerProxyMode (NewProxy 1 False) True)
        (''GET / HTTP/1.1'' @ CRLF @ ''UPGRADE: WebSocket'' @ CRLF @ CRLF)
      = ((SetServerProxyMode (NewProxy 1 False) True)
           \<lparr>wsUpgradeInitialized := True, lInitialized := True\<rparr>,
         ''HTTP/1.1 101 Switching Protocols'' @ [CHR 0x0D, CHR 0x0A, CHR 0x0D, CHR 0x0A])
   \<and> handleOutboundData_root (SetServerProxyMode (NewProxy 1 False) True)
        (''GET / HTTP/1.1'' @ CRLF @ ''Host: x'' @ CRLF @ CRLF)
      = ((SetServerProxyMode (NewProxy 1 False) True)\<lparr>lInitialized := True\<rparr>,
         ''GET / HTTP/1.1'' @ CRLF @ ''Host: x'' @ CRLF @ CRLF)"
proof -
  let ?p = "SetServerProxyMode (NewProxy 1 False) True"
  let ?u = "''GET / HTTP/1.1'' @ CRLF @ ''UPGRADE: WebSocket'' @ CRLF @ CRLF"
  let ?n = "''GET / HTTP/1.1'' @ CRLF @ ''Host: x'' @ CRLF @ CRLF"
  have m: "serverProxyMode ?p" and i: "\<not> lInitialized ?p"
    by (simp_all add: setter_defs)
  have a: "handleOutboundData ?p ?u
      = Inr (?p\<lparr>wsUpgradeInitialized := True, lInitialized := True\<rparr>,
             ''HTTP/1.1 101 Switching Protocols'' @ [CHR 0x0D, CHR 0x0A]
             @ ''Upgrade: websocket'' @ [CHR 0x0D, CHR 0x0A]
             @ ''Connection: Upgrade'' @ [CHR 0x0D, CHR 0x0A, CHR 0x0D, CHR 0x0A])"
    using server_outbound_hook_upgrade [OF m i, of ?u, THEN conjunct1]
    by (simp add: lib_defs)
  have b: "handleOutboundData ?p ?n = Inr (?p\<lparr>lInitialized := True\<rparr>, ?n)"
    using server_outbound_hook_upgrade [OF m i, of ?n, THEN conjunct1]
    by (simp add: lib_defs)
  have c: "handleOutboundData_root ?p ?u
      = (?p\<lparr>wsUpgradeInitialized := True, lInitialized := True\<rparr>,
         ''HTTP/1.1 101 Switching Protocols'' @ [CHR 0x0D, CHR 0x0A, CHR 0x0D, CHR 0x0A])"
    using server_outbound_hook_upgrade [OF m i, of ?u, THEN conjunct2]
    by (simp add: lib_defs)
  have d: "handleOutboundData_root ?p ?n = (?p\<lparr>lInitialized := True\<rparr>, ?n)"
    using server_outbound_hook_upgrade [OF m i, of ?n, THEN conjunct2]
    by (simp add: lib_defs)
  show ?thesis
    by (intro conjI) (rule m i a b c d)+
qed

section \<open>The outbound hook in client mode, kind ssh\<close>

text \<open>
  Claim C4. In client mode with \<open>proxyKind = "ssh"\<close>, on the first outbound buffer:
  when the first line of the buffer contains \<open>CONNECT \<close> (with the space), the whole
  buffer is replaced by \<open>lPayload\<close>; with any other first line the buffer is left as
  it was read. With the server host \<open>example.com:22\<close> and the payload template
  \<open>CONNECT [host_port] HTTP/1.1[crlf][crlf]\<close>, the buffer
  \<open>CONNECT anything HTTP/1.1\<close> followed by two line ends is rewritten to
  \<open>CONNECT example.com:22 HTTP/1.1\<close> followed by two line ends.
\<close>

theorem client_ssh_outbound_hook:
  assumes "\<not> serverProxyMode p" and "proxyKind p = ''ssh''" and "\<not> lInitialized p"
    and "scanLines buf = l # ls"
  shows "handleOutboundData p buf =
           Inr (p\<lparr>lInitialized := True\<rparr>, if Contains l ''CONNECT '' then lPayload p else buf)
         \<and> handleOutboundData
             (SetProxyKind
                (SetlPayload (SetServerHost (NewProxy cid sec) ''example.com:22'')
                   ''CONNECT [host_port] HTTP/1.1[crlf][crlf]'')
                ''ssh'')
             (''CONNECT anything HTTP/1.1'' @ [CHR 0x0D, CHR 0x0A, CHR 0x0D, CHR 0x0A])
           = Inr ((SetProxyKind
                     (SetlPayload (SetServerHost (NewProxy cid sec) ''example.com:22'')
                        ''CONNECT [host_port] HTTP/1.1[crlf][crlf]'')
                     ''ssh'')\<lparr>lInitialized := True\<rparr>,
                  ''CONNECT example.com:22 HTTP/1.1'' @ [CHR 0x0D, CHR 0x0A, CHR 0x0D, CHR 0x0A])"
proof
  show "handleOutboundData p buf =
          Inr (p\<lparr>lInitialized := True\<rparr>, if Contains l ''CONNECT '' then lPayload p else buf)"
    using assms by (simp add: handleOutboundData_def)
next
  show "handleOutboundData
             (SetProxyKind
                (SetlPayload (SetServerHost (NewProxy cid sec) ''example.com:22'')
                   ''CONNECT [host_port] HTTP/1.1[crlf][crlf]'')
                ''ssh'')
             (''CONNECT anything HTTP/1.1'' @ [CHR 0x0D, CHR 0x0A, CHR 0x0D, CHR 0x0A])
           = Inr ((SetProxyKind
                     (SetlPayload (SetServerHost (NewProxy cid sec) ''example.com:22'')
                        ''CONNECT [host_port] HTTP/1.1[crlf][crlf]'')
                     ''ssh'')\<lparr>lInitialized := True\<rparr>,
                  ''CONNECT example.com:22 HTTP/1.1'' @ [CHR 0x0D, CHR 0x0A, CHR 0x0D, CHR 0x0A])"
    by (simp add: lib_defs setter_defs hook_defs)
qed

theorem client_ssh_outbound_hook_witness:
  "\<not> serverProxyMode (SetProxyKind (SetlPayload (NewProxy 7 False) ''HELLO[crlf]'') ''ssh'')
   \<and> proxyKind (SetProxyKind (SetlPayload (NewProxy 7 False) ''HELLO[crlf]'') ''ssh'') = ''ssh''
   \<and> \<not> lInitialized (SetProxyKind (SetlPayload (NewProxy 7 False) ''HELLO[crlf]'') ''ssh'')
   \<and> scanLines (''SSH-2.0-OpenSSH'' @ CRLF) = [''SSH-2.0-OpenSSH'']
   \<and> handleOutboundData (SetProxyKind (SetlPayload (NewProxy 7 False) ''HELLO[crlf]'') ''ssh'')
        (''SSH-2.0-OpenSSH'' @ CRLF)
      = Inr ((SetProxyKind (SetlPayload (NewProxy 7 False) ''HELLO[crlf]'') ''ssh'')
               \<lparr>lInitialized := True\<rparr>,
             ''SSH-2.0-OpenSSH'' @ CRLF)
   \<and> scanLines (''CONNECT h:1 HTTP/1.0'' @ CRLF @ CRLF) = [''CONNECT h:1 HTTP/1.0'', []]
   \<and> handleOutboundData (SetProxyKind (SetlPayload (NewProxy 7 False) ''HELLO[crlf]'') ''ssh'')
        (''CONNECT h:1 HTTP/1.0'' @ CRLF @ CRLF)
      = Inr ((SetProxyKind (SetlPayload (NewProxy 7 False) ''HELLO[crlf]'') ''ssh'')
               \<lparr>lInitialized := True\<rparr>,
             ''HELLO'' @ CRLF)"
  using client_ssh_outbound_hook
          [of "SetProxyKind (SetlPayload (NewProxy 7 False) ''HELLO[crlf]'') ''ssh''"
              "''SSH-2.0-OpenSSH'' @ CRLF" "''SSH-2.0-OpenSSH''" "[]"]
        client_ssh_outbound_hook
          [of "SetProxyKind (SetlPayload (NewProxy 7 False) ''HELLO[crlf]'') ''ssh''"
              "''CONNECT h:1 HTTP/1.0'' @ CRLF @ CRLF" "''CONNECT h:1 HTTP/1.0''" "[[]]"]
  by (simp add: lib_defs setter_defs)

section \<open>The payload templates\<close>

text \<open>
  Claim C5. For every template, \<open>SetlPayload\<close> substitutes by \<open>strings.Replace\<close> with
  count \<open>-1\<close> (every occurrence, see \<open>Replace_absent\<close> and \<open>Replace_first\<close>), in this
  order: \<open>[host]\<close> by the host name, \<open>[host_port]\<close> by the host name, a colon and the
  port in decimal, \<open>[sni]\<close> by the SNI host, \<open>[crlf]\<close> by the bytes \<open>0x0D 0x0A\<close>. The
  first two steps are skipped when no host name is configured and the third when no SNI
  host is, and a placeholder whose step is skipped is still in the payload. \<open>SetrPayload\<close>
  takes \<open>HTTP/1.1 200 Connection Established[crlf][crlf]\<close> for an empty template and
  substitutes \<open>[crlf]\<close> only.
\<close>

theorem payload_setters_substitute:
  "lPayload (SetlPayload p tmpl) =
     (let hosted = (if HostName (sHost p) = [] then tmpl
                    else Replace (Replace tmpl ''[host]'' (HostName (sHost p))) ''[host_port]''
                           (HostName (sHost p) @ '':'' @ FormatUint (unat (Port (sHost p)))));
          named = (if sniHost p = [] then hosted else Replace hosted ''[sni]'' (sniHost p))
      in Replace named ''[crlf]'' [CHR 0x0D, CHR 0x0A])
   \<and> (HostName (sHost p) = [] \<and> Contains tmpl ''[host]''
        \<longrightarrow> Contains (lPayload (SetlPayload p tmpl)) ''[host]'')
   \<and> (HostName (sHost p) = [] \<and> Contains tmpl ''[host_port]''
        \<longrightarrow> Contains (lPayload (SetlPayload p tmpl)) ''[host_port]'')
   \<and> (sniHost p = [] \<and> Contains tmpl ''[sni]''
        \<longrightarrow> Contains (lPayload (SetlPayload p tmpl)) ''[sni]'')
   \<and> rPayload (SetrPayload p []) =
        ''HTTP/1.1 200 Connection Established'' @ [CHR 0x0D, CHR 0x0A, CHR 0x0D, CHR 0x0A]
   \<and> rPayload (SetrPayload p tmpl) =
        Replace (if tmpl = [] then ''HTTP/1.1 200 Connection Established[crlf][crlf]'' else tmpl)
          ''[crlf]'' [CHR 0x0D, CHR 0x0A]"
proof (intro conjI impI)
  show "lPayload (SetlPayload p tmpl) =
     (let hosted = (if HostName (sHost p) = [] then tmpl
                    else Replace (Replace tmpl ''[host]'' (HostName (sHost p))) ''[host_port]''
                           (HostName (sHost p) @ '':'' @ FormatUint (unat (Port (sHost p)))));
          named = (if sniHost p = [] then hosted else Replace hosted ''[sni]'' (sniHost p))
      in Replace named ''[crlf]'' [CHR 0x0D, CHR 0x0A])"
    by (rule lPayload_SetlPayload)
next
  assume "HostName (sHost p) = [] \<and> Contains tmpl ''[host]''"
  then show "Contains (lPayload (SetlPayload p tmpl)) ''[host]''"
    using host_tokens_stay [of p "''[host]''" tmpl] by simp
next
  assume "HostName (sHost p) = [] \<and> Contains tmpl ''[host_port]''"
  then show "Contains (lPayload (SetlPayload p tmpl)) ''[host_port]''"
    using host_tokens_stay [of p "''[host_port]''" tmpl] by simp
next
  assume "sniHost p = [] \<and> Contains tmpl ''[sni]''"
  then show "Contains (lPayload (SetlPayload p tmpl)) ''[sni]''"
    using sni_token_stays [of p tmpl] by simp
next
  show "rPayload (SetrPayload p []) =
        ''HTTP/1.1 200 Connection Established'' @ [CHR 0x0D, CHR 0x0A, CHR 0x0D, CHR 0x0A]"
    by (simp add: SetrPayload_def CRLF_def CR_def LF_def)
next
  show "rPayload (SetrPayload p tmpl) =
        Replace (if tmpl = [] then ''HTTP/1.1 200 Connection Established[crlf][crlf]'' else tmpl)
          ''[crlf]'' [CHR 0x0D, CHR 0x0A]"
    by (simp add: SetrPayload_def Let_def CRLF_def CR_def LF_def)
qed


theorem payload_setters_substitute_witness:
  "lPayload (SetlPayload
               (SetSNIHost (SetServerHost (NewProxy 3 True) ''my-server:443'') ''cloudflare.com'')
               ''GET ws://[sni] HTTP/1.1[crlf]Host: [host][crlf]X: [host_port][crlf][crlf]'')
     = ''GET ws://cloudflare.com HTTP/1.1'' @ CRLF @ ''Host: my-server'' @ CRLF
       @ ''X: my-server:443'' @ CRLF @ CRLF
   \<and> HostName (sHost (SetSNIHost (NewProxy 3 True) ''cloudflare.com'')) = []
   \<and> Contains ''GET ws://[sni] HTTP/1.1[crlf]Host: [host][crlf][crlf]'' ''[host]''
   \<and> Contains (lPayload (SetlPayload (SetSNIHost (NewProxy 3 True) ''cloudflare.com'')
        ''GET ws://[sni] HTTP/1.1[crlf]Host: [host][crlf][crlf]'')) ''[host]''
   \<and> lPayload (SetlPayload (SetSNIHost (NewProxy 3 True) ''cloudflare.com'')
        ''GET ws://[sni] HTTP/1.1[crlf]Host: [host][crlf][crlf]'')
     = ''GET ws://cloudflare.com HTTP/1.1'' @ CRLF @ ''Host: [host]'' @ CRLF @ CRLF
   \<and> rPayload (SetrPayload (NewProxy 3 True) []) =
       ''HTTP/1.1 200 Connection Established'' @ CRLF @ CRLF"
proof -
  let ?p = "SetSNIHost (NewProxy 3 True) ''cloudflare.com''"
  let ?t = "''GET ws://[sni] HTTP/1.1[crlf]Host: [host][crlf][crlf]''"
  have h1: "HostName (sHost ?p) = []"
    by (simp add: setter_defs)
  have h2: "Contains ?t ''[host]''"
    by simp
  have c: "Contains (lPayload (SetlPayload ?p ?t)) ''[host]''"
    using payload_setters_substitute [of ?p ?t] h1 h2 by blast
  have r: "rPayload (SetrPayload (NewProxy 3 True) []) =
       ''HTTP/1.1 200 Connection Established'' @ CRLF @ CRLF"
    using payload_setters_substitute [of "NewProxy 3 True" "[]"]
    by (simp add: CRLF_def CR_def LF_def)
  have e1: "lPayload (SetlPayload
               (SetSNIHost (SetServerHost (NewProxy 3 True) ''my-server:443'') ''cloudflare.com'')
               ''GET ws://[sni] HTTP/1.1[crlf]Host: [host][crlf]X: [host_port][crlf][crlf]'')
     = ''GET ws://cloudflare.com HTTP/1.1'' @ CRLF @ ''Host: my-server'' @ CRLF
       @ ''X: my-server:443'' @ CRLF @ CRLF"
    by (simp add: lib_defs setter_defs)
  have e2: "lPayload (SetlPayload ?p ?t)
     = ''GET ws://cloudflare.com HTTP/1.1'' @ CRLF @ ''Host: [host]'' @ CRLF @ CRLF"
    by (simp add: lib_defs setter_defs)
  show ?thesis
    by (intro conjI) (rule e1 h1 h2 c e2 r)+
qed

section \<open>The inbound hook\<close>

text \<open>
  Claim C6, as stated, has the first line of a 101 response replaced and the other lines
  kept. The repository holds the hook twice, and the one of the earlier \<open>proxy.go\<close> has
  no lines and no proxy kinds: in client mode a first buffer that contains \<open>HTTP/1.\<close>
  becomes \<open>rPayload\<close> as a whole, so the line \<open>Upgrade: websocket\<close> after the status
  line is lost.
\<close>

theorem inbound_hook_first_buffer_counterexample:
  "handleInboundData_root (SetrPayload (SetProxyKind (NewProxy 1 False) ''ssh'') [])
     (''HTTP/1.1 101 Switching Protocols'' @ CRLF @ ''Upgrade: websocket'' @ CRLF @ CRLF)
   = ((SetrPayload (SetProxyKind (NewProxy 1 False) ''ssh'') [])\<lparr>rInitialized := True\<rparr>,
      ''HTTP/1.1 200 Connection Established'' @ CRLF @ CRLF)
   \<and> ''HTTP/1.1 200 Connection Established'' @ CRLF @ CRLF
     \<noteq> ''HTTP/1.1 200 Connection Established'' @ CRLF @ ''Upgrade: websocket'' @ CRLF @ CRLF"
  by (simp add: lib_defs setter_defs root_defs)

text \<open>
  Claim C6, amended. In \<open>pkg/proxy/proxy.go\<close>, on the first buffer read from the remote
  stream, when the buffer has a first line: if that line contains \<open> 101 \<close> and
  \<open>proxyKind\<close> is \<open>ssh\<close>, the line is replaced by \<open>rPayload\<close> with every \<open>0x0D 0x0A\<close>
  removed, and the other lines are kept. In client mode the buffer then becomes the lines
  joined by \<open>0x0D 0x0A\<close> with one more \<open>0x0D 0x0A\<close> at the end; in server mode the buffer
  stays as it was read, byte for byte. In the earlier \<open>proxy.go\<close>, the first buffer read
  from the remote stream becomes \<open>rPayload\<close> as a whole when it contains \<open>HTTP/1.\<close> and
  the session is in client mode, and stays as it was read otherwise, in server mode
  always. In both files the hook is marked as fired either way.
\<close>

theorem inbound_hook_first_buffer:
  assumes "\<not> rInitialized p"
  shows "(scanLines buf = l # ls \<longrightarrow>
            handleInboundData p buf =
              Inr (p\<lparr>rInitialized := True\<rparr>,
                   if serverProxyMode p then buf
                   else Join ((if Contains l '' 101 '' \<and> proxyKind p = ''ssh''
                               then Replace (rPayload p) [CHR 0x0D, CHR 0x0A] []
                               else l) # ls) [CHR 0x0D, CHR 0x0A]
                        @ [CHR 0x0D, CHR 0x0A]))
         \<and> handleInboundData_root p buf =
           (p\<lparr>rInitialized := True\<rparr>,
            if Contains buf ''HTTP/1.'' \<and> \<not> serverProxyMode p then rPayload p else buf)"
  using assms by (simp add: handleInboundData_def handleInboundData_root_def CRLF_def CR_def LF_def)

theorem inbound_hook_first_buffer_witness:
  "\<not> rInitialized (SetrPayload (SetProxyKind (NewProxy 1 False) ''ssh'') [])
   \<and> scanLines (''HTTP/1.1 101 Switching Protocols'' @ CRLF @ ''Upgrade: websocket'' @ CRLF @ CRLF)
       = [''HTTP/1.1 101 Switching Protocols'', ''Upgrade: websocket'', []]
   \<and> handleInboundData (SetrPayload (SetProxyKind (NewProxy 1 False) ''ssh'') [])
        (''HTTP/1.1 101 Switching Protocols'' @ CRLF @ ''Upgrade: websocket'' @ CRLF @ CRLF)
      = Inr ((SetrPayload (SetProxyKind (NewProxy 1 False) ''ssh'') [])\<lparr>rInitialized := True\<rparr>,
             ''HTTP/1.1 200 Connection Established'' @ CRLF @ ''Upgrade: websocket'' @ CRLF @ CRLF)
   \<and> handleInboundData
        (SetServerProxyMode (SetrPayload (SetProxyKind (NewProxy 1 False) ''ssh'') []) True)
        (''HTTP/1.1 101 Switching Protocols'' @ CRLF @ ''Upgrade: websocket'' @ CRLF @ CRLF)
      = Inr ((SetServerProxyMode (SetrPayload (SetProxyKind (NewProxy 1 False) ''ssh'') []) True)
               \<lparr>rInitialized := True\<rparr>,
             ''HTTP/1.1 101 Switching Protocols'' @ CRLF @ ''Upgrade: websocket'' @ CRLF @ CRLF)
   \<and> scanLines (''SSH-2.0-OpenSSH_9.6'' @ CRLF) = [''SSH-2.0-OpenSSH_9.6'']
   \<and> handleInboundData (SetrPayload (SetProxyKind (NewProxy 1 False) ''ssh'') [])
        (''SSH-2.0-OpenSSH_9.6'' @ CRLF)
      = Inr ((SetrPayload (SetProxyKind (NewProxy 1 False) ''ssh'') [])\<lparr>rInitialized := True\<rparr>,
             ''SSH-2.0-OpenSSH_9.6'' @ CRLF)
   \<and> handleInboundData_root (SetrPayload (SetProxyKind (NewProxy 1 False) ''ssh'') [])
        (''SSH-2.0-OpenSSH_9.6'' @ CRLF)
      = ((SetrPayload (SetProxyKind (NewProxy 1 False) ''ssh'') [])\<lparr>rInitialized := True\<rparr>,
         ''SSH-2.0-OpenSSH_9.6'' @ CRLF)
   \<and> handleInboundData_root
        (SetServerProxyMode (SetrPayload (SetProxyKind (NewProxy 1 False) ''ssh'') []) True)
        (''HTTP/1.1 101 Switching Protocols'' @ CRLF @ ''Upgrade: websocket'' @ CRLF @ CRLF)
      = ((SetServerProxyMode (SetrPayload (SetProxyKind (NewProxy 1 False) ''ssh'') []) True)
           \<lparr>rInitialized := True\<rparr>,
         ''HTTP/1.1 101 Switching Protocols'' @ CRLF @ ''Upgrade: websocket'' @ CRLF @ CRLF)"
proof -
  let ?p = "SetrPayload (SetProxyKind (NewProxy 1 False) ''ssh'') []"
  let ?q = "SetServerProxyMode ?p True"
  let ?b = "''HTTP/1.1 101 Switching Protocols'' @ CRLF @ ''Upgrade: websocket'' @ CRLF @ CRLF"
  let ?h = "''SSH-2.0-OpenSSH_9.6'' @ CRLF"
  have i: "\<not> rInitialized ?p" and j: "\<not> rInitialized ?q"
    by (simp_all add: setter_defs)
  have s: "scanLines ?b = [''HTTP/1.1 101 Switching Protocols'', ''Upgrade: websocket'', []]"
    by (simp add: lib_defs)
  have t: "scanLines ?h = [''SSH-2.0-OpenSSH_9.6'']"
    by (simp add: lib_defs)
  have c: "handleInboundData ?p ?b =
      Inr (?p\<lparr>rInitialized := True\<rparr>,
           ''HTTP/1.1 200 Connection Established'' @ CRLF @ ''Upgrade: websocket'' @ CRLF @ CRLF)"
    using inbound_hook_first_buffer [OF i, THEN conjunct1, rule_format, OF s] by (simp add: lib_defs setter_defs)
  have d: "handleInboundData ?q ?b = Inr (?q\<lparr>rInitialized := True\<rparr>, ?b)"
    using inbound_hook_first_buffer [OF j, THEN conjunct1, rule_format, OF s] by (simp add: setter_defs)
  have e: "handleInboundData ?p ?h = Inr (?p\<lparr>rInitialized := True\<rparr>, ?h)"
    using inbound_hook_first_buffer [OF i, THEN conjunct1, rule_format, OF t] by (simp add: lib_defs setter_defs)
  have f: "handleInboundData_root ?p ?h = (?p\<lparr>rInitialized := True\<rparr>, ?h)"
    using inbound_hook_first_buffer [OF i, of ?h, THEN conjunct2] by (simp add: lib_defs setter_defs)
  have g: "handleInboundData_root ?q ?b = (?q\<lparr>rInitialized := True\<rparr>, ?b)"
    using inbound_hook_first_buffer [OF j, of ?b, THEN conjunct2] by (simp add: setter_defs)
  show ?thesis
    by (intro conjI) (rule i s c d t e f g)+
qed

section \<open>The first-packet latch\<close>

text \<open>
  Claim C7. A hook whose latch is set returns the session and the buffer as they are,
  whatever the buffer holds (also a buffer without lines, on which the first call would
  panic); a hook that returns has set its latch, whichever branch it took. So for a task
  that reads the buffers \<open>b, b\<^sub>2, \<dots>, b\<^sub>N\<close> in one direction and whose
  writes succeed, once the first pass has gone through (with the events \<open>evs\<close>: the write
  of the possibly rewritten first buffer, or in server mode the answer to the upgrade and the
  start of the reverse task), the passes 2 to N write exactly \<open>b\<^sub>2, \<dots>, b\<^sub>N\<close>
  to the destination stream, in this order.
\<close>

theorem first_packet_latch:
  "(lInitialized p \<longrightarrow> handleOutboundData p b = Inr (p, b))
   \<and> (rInitialized p \<longrightarrow> handleInboundData p b = Inr (p, b))
   \<and> (handleOutboundData p b = Inr (p', b') \<longrightarrow> lInitialized p')
   \<and> (handleInboundData p b = Inr (p', b') \<longrightarrow> rInitialized p')
   \<and> (forwardBody p src dst (Some b) True = (p1, evs, Continue) \<longrightarrow>
        (\<exists>p2. handleForwardData p src dst ((Some b, True) # map (\<lambda>x. (Some x, True)) bs)
               = (p2, evs @ map (\<lambda>x. Write dst x True) bs, Running)))"
proof (intro conjI impI)
  show "handleOutboundData p b = Inr (p, b)" if "lInitialized p"
    using that by (rule handleOutboundData_latched)
  show "handleInboundData p b = Inr (p, b)" if "rInitialized p"
    using that by (rule handleInboundData_latched)
  show "lInitialized p'" if "handleOutboundData p b = Inr (p', b')"
    using that by (rule handleOutboundData_fields(7))
  show "rInitialized p'" if "handleInboundData p b = Inr (p', b')"
    using that by (rule handleInboundData_fields(7))
  show "\<exists>p2. handleForwardData p src dst ((Some b, True) # map (\<lambda>x. (Some x, True)) bs)
               = (p2, evs @ map (\<lambda>x. Write dst x True) bs, Running)"
    if fb: "forwardBody p src dst (Some b) True = (p1, evs, Continue)"
  proof -
    have "(if src = LConn then lInitialized p1 else rInitialized p1)
          \<and> \<not> (serverProxyMode p1 \<and> wsUpgradeInitialized p1)"
      using fb by (rule forwardBody_Continue)
    then obtain p2 where
      "handleForwardData p1 src dst (map (\<lambda>x. (Some x, True)) bs)
         = (p2, map (\<lambda>x. Write dst x True) bs, Running)"
      using handleForwardData_steady [of src p1 dst bs] by blast
    then show ?thesis using fb by simp
  qed
qed

theorem first_packet_latch_witness:
  "snd (forwardBody (SetProxyKind (SetlPayload (NewProxy 7 False) ''HELLO[crlf]'') ''ssh'')
          LConn RConn (Some (''CONNECT h:1 HTTP/1.0'' @ CRLF @ CRLF)) True)
     = ([Write RConn (''HELLO'' @ CRLF) True], Continue)
   \<and> fst (snd (handleForwardData
                 (SetProxyKind (SetlPayload (NewProxy 7 False) ''HELLO[crlf]'') ''ssh'')
                 LConn RConn
                 [(Some (''CONNECT h:1 HTTP/1.0'' @ CRLF @ CRLF), True),
                  (Some ''CONNECT again '', True), (Some [], True)]))
     = [Write RConn (''HELLO'' @ CRLF) True, Write RConn ''CONNECT again '' True,
        Write RConn [] True]"
proof -
  let ?p = "SetProxyKind (SetlPayload (NewProxy 7 False) ''HELLO[crlf]'') ''ssh''"
  let ?b = "''CONNECT h:1 HTTP/1.0'' @ CRLF @ CRLF"
  have f: "snd (forwardBody ?p LConn RConn (Some ?b) True)
             = ([Write RConn (''HELLO'' @ CRLF) True], Continue)"
    by (simp add: lib_defs setter_defs hook_defs forwardBody_def)
  then have "forwardBody ?p LConn RConn (Some ?b) True
        = (fst (forwardBody ?p LConn RConn (Some ?b) True),
           [Write RConn (''HELLO'' @ CRLF) True], Continue)"
    by (metis prod.collapse)
  then obtain p2 where
    "handleForwardData ?p LConn RConn
       ((Some ?b, True) # map (\<lambda>x. (Some x, True)) [''CONNECT again '', []])
     = (p2, [Write RConn (''HELLO'' @ CRLF) True]
            @ map (\<lambda>x. Write RConn x True) [''CONNECT again '', []], Running)"
    using first_packet_latch [of ?p ?b _ _ LConn RConn _ _ "[''CONNECT again '', []]"]
    by blast
  then have g: "fst (snd (handleForwardData ?p LConn RConn
                 [(Some ?b, True), (Some ''CONNECT again '', True), (Some [], True)]))
     = [Write RConn (''HELLO'' @ CRLF) True, Write RConn ''CONNECT again '' True,
        Write RConn [] True]"
    by simp
  show ?thesis
    by (intro conjI) (rule f g)+
qed

section \<open>A first buffer without lines\<close>

text \<open>
  Claim C8. The hooks read \<open>respArr[0]\<close> without testing that a line was scanned. For a
  buffer in which the scanner finds no line, such as the empty buffer, the outbound hook
  in client mode with kind \<open>ssh\<close> or \<open>trojan\<close> and the inbound hook in both modes index
  an empty slice and panic: they return no buffer on these inputs.
\<close>

theorem hooks_panic_without_lines:
  assumes "scanLines buf = []"
  shows "(\<not> serverProxyMode p \<and> \<not> lInitialized p
            \<and> (proxyKind p = ''ssh'' \<or> proxyKind p = ''trojan'')
          \<longrightarrow> handleOutboundData p buf = Inl IndexOutOfRange)
         \<and> (\<not> rInitialized p \<longrightarrow> handleInboundData p buf = Inl IndexOutOfRange)
         \<and> scanLines [] = []"
  using assms by (auto simp: handleOutboundData_def handleInboundData_def)

theorem hooks_panic_without_lines_witness:
  "scanLines [] = []
   \<and> handleOutboundData (SetProxyKind (NewProxy 1 False) ''ssh'') [] = Inl IndexOutOfRange
   \<and> handleOutboundData (SetProxyKind (NewProxy 1 False) ''trojan'') [] = Inl IndexOutOfRange
   \<and> handleInboundData (NewProxy 1 False) [] = Inl IndexOutOfRange"
proof -
  have s: "scanLines [] = []" by simp
  have a: "handleOutboundData (SetProxyKind (NewProxy 1 False) ''ssh'') [] = Inl IndexOutOfRange"
    using hooks_panic_without_lines [OF s, of "SetProxyKind (NewProxy 1 False) ''ssh''"]
    by (simp add: setter_defs)
  have b: "handleOutboundData (SetProxyKind (NewProxy 1 False) ''trojan'') [] = Inl IndexOutOfRange"
    using hooks_panic_without_lines [OF s, of "SetProxyKind (NewProxy 1 False) ''trojan''"]
    by (simp add: setter_defs)
  have c: "handleInboundData (NewProxy 1 False) [] = Inl IndexOutOfRange"
    using hooks_panic_without_lines [OF s, of "NewProxy 1 False"]
    by (simp add: setter_defs)
  show ?thesis
    by (intro conjI) (rule s a b c)+
qed

section \<open>The outbound hook in client mode, kind trojan\<close>

text \<open>
  Claim C9, as stated, promises that only the request target changes and that the rest of
  the request line and the headers stay as they were. The source calls
  \<open>strings.Replace\<close> with count \<open>-1\<close> on the whole buffer, so a header that holds the
  path between two spaces is rewritten as well: with the path \<open>/\<close>, the header
  \<open>X-Note: a / b\<close> becomes \<open>X-Note: a wss://cdn.example/ b\<close>.
\<close>

theorem trojan_rewrite_counterexample:
  "handleOutboundData (SetSNIHost (SetProxyKind (NewProxy 1 False) ''trojan'') ''cdn.example'')
     (''GET / HTTP/1.1'' @ CRLF @ ''X-Note: a / b'' @ CRLF @ CRLF)
   = Inr ((SetSNIHost (SetProxyKind (NewProxy 1 False) ''trojan'') ''cdn.example'')
            \<lparr>lInitialized := True\<rparr>,
          ''GET wss://cdn.example/ HTTP/1.1'' @ CRLF @ ''X-Note: a wss://cdn.example/ b''
          @ CRLF @ CRLF)
   \<and> ''GET wss://cdn.example/ HTTP/1.1'' @ CRLF @ ''X-Note: a wss://cdn.example/ b'' @ CRLF @ CRLF
     \<noteq> ''GET wss://cdn.example/ HTTP/1.1'' @ CRLF @ ''X-Note: a / b'' @ CRLF @ CRLF"
  by (simp add: lib_defs setter_defs hook_defs)

text \<open>
  Claim C9, amended. In client mode with \<open>proxyKind = "trojan"\<close>, when the first line of
  the first outbound buffer has a second field between single spaces (the path), every
  occurrence of the path between two spaces in the whole buffer is replaced by
  \<open> wss://\<close>, the SNI host, the path and a space. When the path between two spaces occurs
  once in the buffer, only that occurrence changes and the bytes before and after it
  are kept. With the SNI host \<open>cdn.example\<close> the buffer \<open>GET /abc HTTP/1.1\<close>,
  \<open>Host: x\<close> is rewritten to \<open>GET wss://cdn.example/abc HTTP/1.1\<close>, \<open>Host: x\<close>.
\<close>

theorem client_trojan_outbound_hook:
  assumes "\<not> serverProxyMode p" and "proxyKind p = ''trojan''" and "\<not> lInitialized p"
    and "scanLines buf = l # ls" and "Split l '' '' = f0 # reqPath # fs"
  shows "handleOutboundData p buf =
           Inr (p\<lparr>lInitialized := True\<rparr>,
                Replace buf ('' '' @ reqPath @ '' '') ('' wss://'' @ sniHost p @ reqPath @ '' ''))
         \<and> (\<forall>a b. buf = a @ '' '' @ reqPath @ '' '' @ b
                \<and> \<not> Contains (a @ '' '' @ reqPath) ('' '' @ reqPath @ '' '')
                \<and> \<not> Contains b ('' '' @ reqPath @ '' '')
              \<longrightarrow> handleOutboundData p buf =
                    Inr (p\<lparr>lInitialized := True\<rparr>,
                         a @ '' wss://'' @ sniHost p @ reqPath @ '' '' @ b))"
proof (intro conjI allI impI)
  show h: "handleOutboundData p buf =
           Inr (p\<lparr>lInitialized := True\<rparr>,
                Replace buf ('' '' @ reqPath @ '' '') ('' wss://'' @ sniHost p @ reqPath @ '' ''))"
    using assms by (simp add: handleOutboundData_def)
  fix a b
  assume ab: "buf = a @ '' '' @ reqPath @ '' '' @ b
                \<and> \<not> Contains (a @ '' '' @ reqPath) ('' '' @ reqPath @ '' '')
                \<and> \<not> Contains b ('' '' @ reqPath @ '' '')"
  let ?old = "'' '' @ reqPath @ '' ''"
  have bl: "butlast ?old = '' '' @ reqPath" by (simp add: butlast_append)
  have "Replace (a @ ?old @ b) ?old ('' wss://'' @ sniHost p @ reqPath @ '' '')
        = a @ ('' wss://'' @ sniHost p @ reqPath @ '' '') @ Replace b ?old ('' wss://'' @ sniHost p @ reqPath @ '' '')"
    using ab by (intro Replace_first) (simp_all only: bl, simp_all)
  moreover have "Replace b ?old ('' wss://'' @ sniHost p @ reqPath @ '' '') = b"
    using ab by (intro Replace_absent) simp_all
  ultimately show "handleOutboundData p buf =
                    Inr (p\<lparr>lInitialized := True\<rparr>,
                         a @ '' wss://'' @ sniHost p @ reqPath @ '' '' @ b)"
    using h ab by simp
qed

theorem client_trojan_outbound_hook_witness:
  "\<not> serverProxyMode (SetSNIHost (SetProxyKind (NewProxy 1 False) ''trojan'') ''cdn.example'')
   \<and> proxyKind (SetSNIHost (SetProxyKind (NewProxy 1 False) ''trojan'') ''cdn.example'')
       = ''trojan''
   \<and> \<not> lInitialized (SetSNIHost (SetProxyKind (NewProxy 1 False) ''trojan'') ''cdn.example'')
   \<and> scanLines (''GET /abc HTTP/1.1'' @ CRLF @ ''Host: x'' @ CRLF @ CRLF)
       = [''GET /abc HTTP/1.1'', ''Host: x'', []]
   \<and> Split ''GET /abc HTTP/1.1'' '' '' = [''GET'', ''/abc'', ''HTTP/1.1'']
   \<and> handleOutboundData
        (SetSNIHost (SetProxyKind (NewProxy 1 False) ''trojan'') ''cdn.example'')
        (''GET /abc HTTP/1.1'' @ CRLF @ ''Host: x'' @ CRLF @ CRLF)
      = Inr ((SetSNIHost (SetProxyKind (NewProxy 1 False) ''trojan'') ''cdn.example'')
               \<lparr>lInitialized := True\<rparr>,
             ''GET wss://cdn.example/abc HTTP/1.1'' @ CRLF @ ''Host: x'' @ CRLF @ CRLF)"
proof -
  let ?p = "SetSNIHost (SetProxyKind (NewProxy 1 False) ''trojan'') ''cdn.example''"
  let ?b = "''GET /abc HTTP/1.1'' @ CRLF @ ''Host: x'' @ CRLF @ CRLF"
  have m: "\<not> serverProxyMode ?p" and k: "proxyKind ?p = ''trojan''" and i: "\<not> lInitialized ?p"
    by (simp_all add: setter_defs)
  have s: "scanLines ?b = [''GET /abc HTTP/1.1'', ''Host: x'', []]"
    by (simp add: lib_defs)
  have f: "Split ''GET /abc HTTP/1.1'' '' '' = [''GET'', ''/abc'', ''HTTP/1.1'']"
    by (simp add: Split_def)
  have "handleOutboundData ?p ?b =
          Inr (?p\<lparr>lInitialized := True\<rparr>,
               Replace ?b ('' '' @ ''/abc'' @ '' '') ('' wss://'' @ sniHost ?p @ ''/abc'' @ '' ''))"
    using client_trojan_outbound_hook [OF m k i s f] by (rule conjunct1)
  then have c: "handleOutboundData ?p ?b =
      Inr (?p\<lparr>lInitialized := True\<rparr>,
           ''GET wss://cdn.example/abc HTTP/1.1'' @ CRLF @ ''Host: x'' @ CRLF @ CRLF)"
    by (simp add: lib_defs setter_defs)
  show ?thesis
    by (intro conjI) (rule m k i s f c)+
qed


section \<open>The outbound payload is computed once\<close>

text \<open>
  Claim C10. \<open>SetlPayload\<close> substitutes with the host and the SNI host the session has
  when it is called, and no other function of the package writes \<open>lPayload\<close>: the
  other setters, a pass of the forwarding loop (the hooks included) and \<open>err\<close> all keep
  it. So when \<open>SetlPayload\<close> runs on a session with no host name, a later
  \<open>SetServerHost\<close> leaves \<open>[host]\<close> and \<open>[host_port]\<close> in the payload, and when it runs
  on a session with no SNI host, a later \<open>SetSNIHost\<close> leaves \<open>[sni]\<close> in it, although
  the values are configured by then. On a new session followed by both setters the
  payload is the template with \<open>[crlf]\<close> substituted and nothing else.
\<close>

theorem payload_fixed_at_call:
  "lPayload (SetServerHost (SetlPayload p tmpl) server) = lPayload (SetlPayload p tmpl)
   \<and> lPayload (SetSNIHost (SetlPayload p tmpl) sni) = lPayload (SetlPayload p tmpl)
   \<and> sniHost (SetSNIHost (SetlPayload p tmpl) sni) = sni
   \<and> (HostName (sHost p) = [] \<and> (tok = ''[host]'' \<or> tok = ''[host_port]'')
        \<and> Contains tmpl tok
       \<longrightarrow> Contains (lPayload (SetServerHost (SetlPayload p tmpl) server)) tok)
   \<and> (sniHost p = [] \<and> Contains tmpl ''[sni]''
       \<longrightarrow> Contains (lPayload (SetSNIHost (SetlPayload p tmpl) sni)) ''[sni]'')
   \<and> lPayload (SetSNIHost (SetServerHost (SetlPayload (NewProxy cid sec) tmpl) server) sni)
       = Replace tmpl ''[crlf]'' [CHR 0x0D, CHR 0x0A]
   \<and> lPayload (SetrPayload p t) = lPayload p
   \<and> lPayload (SetServerProxyMode p en) = lPayload p
   \<and> lPayload (SetBufferSize p n) = lPayload p
   \<and> lPayload (SetEnableTLS p en) = lPayload p
   \<and> lPayload (SetProxyKind p kind) = lPayload p
   \<and> (forwardBody p src dst rd wok = (p', evs, oc) \<longrightarrow> lPayload p' = lPayload p)
   \<and> (err p = Some p' \<longrightarrow> lPayload p' = lPayload p)"
proof (intro conjI impI)
  show "lPayload (SetServerHost (SetlPayload p tmpl) server) = lPayload (SetlPayload p tmpl)"
    by (rule SetServerHost_lPayload)
  show "lPayload (SetSNIHost (SetlPayload p tmpl) sni) = lPayload (SetlPayload p tmpl)"
    by (rule SetSNIHost_lPayload)
  show "sniHost (SetSNIHost (SetlPayload p tmpl) sni) = sni"
    by (simp add: SetSNIHost_def)
  show "Contains (lPayload (SetServerHost (SetlPayload p tmpl) server)) tok"
    if "HostName (sHost p) = [] \<and> (tok = ''[host]'' \<or> tok = ''[host_port]'')
        \<and> Contains tmpl tok"
    using that host_tokens_stay [of p tok tmpl] by (simp add: SetServerHost_lPayload)
  show "Contains (lPayload (SetSNIHost (SetlPayload p tmpl) sni)) ''[sni]''"
    if "sniHost p = [] \<and> Contains tmpl ''[sni]''"
    using that sni_token_stays [of p tmpl] by (simp add: SetSNIHost_lPayload)
  show "lPayload (SetSNIHost (SetServerHost (SetlPayload (NewProxy cid sec) tmpl) server) sni)
       = Replace tmpl ''[crlf]'' [CHR 0x0D, CHR 0x0A]"
    by (simp add: SetSNIHost_lPayload SetServerHost_lPayload)
       (simp add: SetlPayload_def NewProxy_def CRLF_def CR_def LF_def)
  show "lPayload (SetrPayload p t) = lPayload p"
    by (simp add: SetrPayload_def Let_def)
  show "lPayload (SetServerProxyMode p en) = lPayload p"
    by (simp add: SetServerProxyMode_def)
  show "lPayload (SetBufferSize p n) = lPayload p"
    by (simp add: SetBufferSize_def)
  show "lPayload (SetEnableTLS p en) = lPayload p"
    by (simp add: SetEnableTLS_def)
  show "lPayload (SetProxyKind p kind) = lPayload p"
    by (simp add: SetProxyKind_def)
  show "lPayload p' = lPayload p" if "forwardBody p src dst rd wok = (p', evs, oc)"
    using that by (rule forwardBody_lPayload)
  show "lPayload p' = lPayload p" if "err p = Some p'"
    using that by (auto simp: err_def split: if_splits)
qed

theorem payload_fixed_at_call_witness:
  "HostName (sHost (NewProxy 1 False)) = []
   \<and> Contains ''CONNECT [host_port] HTTP/1.1[crlf][crlf]'' ''[host_port]''
   \<and> HostName (sHost (SetServerHost
                         (SetlPayload (NewProxy 1 False) ''CONNECT [host_port] HTTP/1.1[crlf][crlf]'')
                         ''example.com:22'')) = ''example.com''
   \<and> Contains (lPayload (SetServerHost
                  (SetlPayload (NewProxy 1 False) ''CONNECT [host_port] HTTP/1.1[crlf][crlf]'')
                  ''example.com:22'')) ''[host_port]''
   \<and> lPayload (SetSNIHost (SetServerHost
                  (SetlPayload (NewProxy 1 False) ''CONNECT [host_port] HTTP/1.1[crlf][crlf]'')
                  ''example.com:22'') ''cdn.example'')
       = ''CONNECT [host_port] HTTP/1.1'' @ CRLF @ CRLF"
proof -
  let ?t = "''CONNECT [host_port] HTTP/1.1[crlf][crlf]''"
  let ?p = "NewProxy 1 False"
  have h: "HostName (sHost ?p) = []" by (simp add: NewProxy_def)
  have c: "Contains ?t ''[host_port]''" by simp
  have n: "HostName (sHost (SetServerHost (SetlPayload ?p ?t) ''example.com:22'')) = ''example.com''"
    by (simp add: lib_defs setter_defs)
  note t = payload_fixed_at_call [of ?p ?t "''example.com:22''" "''cdn.example''" "''[host_port]''" 1 False]
  have k: "Contains (lPayload (SetServerHost (SetlPayload ?p ?t) ''example.com:22'')) ''[host_port]''"
    using t h c by blast
  have "lPayload (SetSNIHost (SetServerHost (SetlPayload ?p ?t) ''example.com:22'') ''cdn.example'')
       = Replace ?t ''[crlf]'' [CHR 0x0D, CHR 0x0A]"
    using t by blast
  then have e: "lPayload (SetSNIHost (SetServerHost (SetlPayload ?p ?t) ''example.com:22'') ''cdn.example'')
       = ''CONNECT [host_port] HTTP/1.1'' @ CRLF @ CRLF"
    by (simp add: lib_defs)
  show ?thesis
    by (intro conjI) (rule h c n k e)+
qed

end
